theory Spec2Isabelle
  imports Main "HOL-Library.Word"
begin

section \<open>The Google Cloud Storage client of Apache Beam (gcsio.py)\<close>

text \<open>
  A shallow embedding of \<^verbatim>\<open>apache_beam/io/gcp/gcsio.py\<close>. Every method of the source
  becomes a function that takes the state it reads and returns the state it leaves:
  the fields of the Python object (a record) and the trace of the calls made to the
  storage service. An exception is a value of type \<open>exn\<close>; a method that may raise
  returns \<open>exn + 'a\<close>, with \<open>Inl\<close> the exception raised.

  The storage client (apitools), the batch layer, the transfer objects and the pipe are
  libraries outside the file. They are parameters of the model: the record \<open>remote\<close>
  holds, for each operation, the answer of the service as a function of the calls made so
  far and of the request. Nothing is assumed about these functions except where a theorem
  says so. Logging and metric counters only observe; they are left out.
\<close>

subsection \<open>Exceptions\<close>

datatype exn =
    HttpError int
  | GcsIOError int string
  | IOError int string
  | ValueError string
  | EOFError
  | IndexError
  | KeyError
  | AttributeError
  | OtherError string

text \<open>
  \<open>HttpError c\<close> carries \<^verbatim>\<open>status_code\<close>; \<open>GcsIOError\<close> and \<open>IOError\<close> carry errno and
  message; \<open>ValueError p\<close> is the error of \<^verbatim>\<open>parse_gcs_path\<close> on the path \<open>p\<close> (the source's
  message is a fixed text followed by the representation of \<open>p\<close>); \<open>OtherError\<close> stands
  for every exception class the file does not name.
\<close>

fun status_code :: "exn \<Rightarrow> int option" where
  "status_code (HttpError c) = Some c"
| "status_code _ = None"

definition ENOENT :: int where
  "ENOENT = 2"

subsection \<open>Constants\<close>

definition MAX_BATCH_OPERATION_SIZE :: nat where
  "MAX_BATCH_OPERATION_SIZE = 100"

definition WRITE_CHUNK_SIZE :: int where
  "WRITE_CHUNK_SIZE = 8 * 1024 * 1024"

subsection \<open>parse_gcs_path\<close>

text \<open>
  \<^verbatim>\<open>re.match('^gs://([^/]+)/(.*)$', gcs_path)\<close>: the prefix, a non-empty bucket up to the
  first slash, then an object name that holds no newline; \<^verbatim>\<open>$\<close> also matches before one
  newline that ends the string. The groups are the bucket and the object name.
\<close>

definition gcs_path_match :: "string \<Rightarrow> (string \<times> string) option" where
  "gcs_path_match gcs_path =
     (if take 5 gcs_path = ''gs://'' then
        (let rest = drop 5 gcs_path;
             bucket = takeWhile (\<lambda>c. c \<noteq> CHR ''/'') rest;
             tail = dropWhile (\<lambda>c. c \<noteq> CHR ''/'') rest
         in if bucket = [] \<or> tail = [] then None
            else (let after = tl tail;
                      obj = takeWhile (\<lambda>c. c \<noteq> CHR 0x0A) after;
                      trail = dropWhile (\<lambda>c. c \<noteq> CHR 0x0A) after
                  in if trail = [] \<or> trail = [CHR 0x0A] then Some (bucket, obj) else None))
      else None)"

definition parse_gcs_path :: "string \<Rightarrow> bool \<Rightarrow> exn + (string \<times> string)" where
  "parse_gcs_path gcs_path object_optional =
     (case gcs_path_match gcs_path of
        None \<Rightarrow> Inl (ValueError gcs_path)
      | Some (bucket, obj) \<Rightarrow>
          if obj = [] \<and> \<not> object_optional then Inl (ValueError gcs_path)
          else Inr (bucket, obj))"

subsection \<open>Requests, responses and the storage service\<close>

type_synonym bytes = "8 word list"

record bucket_msg =
  projectNumber :: "int option"

record object_msg =
  obj_size :: int
  obj_generation :: "int option"

record get_request =
  get_bucket_name :: string
  get_object :: string
  generation :: "int option"

record delete_request =
  delete_bucket :: string
  delete_object :: string

record rewrite_request =
  sourceBucket :: string
  sourceObject :: string
  destinationBucket :: string
  destinationObject :: string
  destinationKmsKeyName :: "string option"
  maxBytesRewrittenPerCall :: "int option"
  rewriteToken :: "string option"

record rewrite_response =
  rw_done :: bool
  rw_rewriteToken :: "string option"
  totalBytesRewritten :: int
  objectSize :: int

record insert_request =
  insert_bucket :: string
  insert_name :: string

text \<open>
  The transfer objects as the source configures them: \<^verbatim>\<open>transfer.Download(stream,
  auto_transfer=False, chunksize=buffer_size, num_retries=20)\<close> and
  \<^verbatim>\<open>transfer.Upload(stream, mime_type, chunksize=WRITE_CHUNK_SIZE)\<close> with the resumable
  strategy.
\<close>

record download_cfg =
  dl_auto_transfer :: bool
  dl_chunksize :: int
  dl_num_retries :: nat

record upload_cfg =
  up_mime_type :: string
  up_chunksize :: int
  up_resumable :: bool

text \<open>One sub-request of a batch, after \<^verbatim>\<open>Execute\<close>: the fields the source reads.\<close>

record 'r api_call =
  is_error :: bool
  exception :: "exn option"
  response :: "'r option"

text \<open>A call made to the service. The trace of a run is the list of its calls, oldest first.\<close>

datatype call =
    BucketsGet string
  | ObjectsGet get_request
  | ObjectsGetDownload get_request download_cfg
  | DownloadGetRange get_request download_cfg int int
  | ObjectsDelete delete_request
  | ObjectsRewrite rewrite_request
  | BatchDelete "delete_request list"
  | BatchRewrite "rewrite_request list"
  | ObjectsInsert insert_request upload_cfg

type_synonym trace = "call list"

text \<open>
  The service: what each operation answers, given the calls made before it. \<open>Inl e\<close> is
  the exception the client call raises; for an operation without a result, \<open>Some e\<close>.
\<close>

record remote =
  buckets_Get :: "trace \<Rightarrow> string \<Rightarrow> exn + bucket_msg"
  objects_Get :: "trace \<Rightarrow> get_request \<Rightarrow> exn + object_msg"
  objects_Get_download :: "trace \<Rightarrow> get_request \<Rightarrow> download_cfg \<Rightarrow> exn option"
  download_GetRange :: "trace \<Rightarrow> get_request \<Rightarrow> download_cfg \<Rightarrow> int \<Rightarrow> int \<Rightarrow> exn + bytes"
  objects_Delete :: "trace \<Rightarrow> delete_request \<Rightarrow> exn option"
  objects_Rewrite :: "trace \<Rightarrow> rewrite_request \<Rightarrow> exn + rewrite_response"
  batch_Delete :: "trace \<Rightarrow> delete_request list \<Rightarrow> exn + unit api_call list"
  batch_Rewrite :: "trace \<Rightarrow> rewrite_request list \<Rightarrow> exn + rewrite_response api_call list"
  objects_Insert :: "trace \<Rightarrow> insert_request \<Rightarrow> upload_cfg \<Rightarrow> exn option"

subsection \<open>The retry decorator\<close>

text \<open>
  Modelled from the spec: \<^verbatim>\<open>retry.with_exponential_backoff\<close> (apache_beam/utils/retry.py)
  is not among the source files. The spec's RetryPolicy: "given an operation, retries it
  with exponential backoff while a supplied predicate classifies the latest failure as
  transient; gives up after a policy-defined attempt/time budget and surfaces the last
  failure". The budget is the number of retries; the predicate is \<open>retry_filter\<close>. The
  waiting between attempts is time and is not modelled.
\<close>

record retry_policy =
  num_retries :: nat
  retry_filter :: "exn \<Rightarrow> bool"

fun retry_loop :: "(exn \<Rightarrow> bool) \<Rightarrow> nat \<Rightarrow> ('s \<Rightarrow> (exn + 'a) \<times> 's) \<Rightarrow> 's \<Rightarrow> (exn + 'a) \<times> 's" where
  "retry_loop flt 0 f s = f s"
| "retry_loop flt (Suc n) f s =
     (case f s of
        (Inl e, s') \<Rightarrow> if flt e then retry_loop flt n f s' else (Inl e, s')
      | (Inr v, s') \<Rightarrow> (Inr v, s'))"

definition with_exponential_backoff ::
  "retry_policy \<Rightarrow> ('s \<Rightarrow> (exn + 'a) \<times> 's) \<Rightarrow> 's \<Rightarrow> (exn + 'a) \<times> 's" where
  "with_exponential_backoff pol f s = retry_loop (retry_filter pol) (num_retries pol) f s"

subsection \<open>GcsIO: the bucket cache\<close>

text \<open>
  The fields of a \<^verbatim>\<open>GcsIO\<close> object. \<open>bucket_to_project_number\<close> is the dictionary of the
  source; a key may hold \<^verbatim>\<open>None\<close>. \<open>rewrite_cb\<close> is the test hook
  \<^verbatim>\<open>_rewrite_cb\<close>: \<open>None\<close> when no callback is set, otherwise the responses the
  callback has received so far.
\<close>

record gcsio =
  bucket_to_project_number :: "string \<rightharpoonup> int option"
  rewrite_cb :: "rewrite_response option list option"

definition GcsIO_init :: gcsio where
  "GcsIO_init = \<lparr>bucket_to_project_number = Map.empty, rewrite_cb = None\<rparr>"

definition set_rewrite_response_callback :: "gcsio \<Rightarrow> gcsio" where
  "set_rewrite_response_callback io = io\<lparr>rewrite_cb := Some []\<rparr>"

text \<open>
  \<^verbatim>\<open>get_bucket\<close>: an \<^verbatim>\<open>HttpError\<close> of the client is caught and gives \<^verbatim>\<open>None\<close>; any other
  exception passes.
\<close>

definition get_bucket :: "remote \<Rightarrow> string \<Rightarrow> trace \<Rightarrow> (exn + bucket_msg option) \<times> trace" where
  "get_bucket R bucket_name h =
     (case buckets_Get R h bucket_name of
        Inr b \<Rightarrow> (Inr (Some b), h @ [BucketsGet bucket_name])
      | Inl e \<Rightarrow>
          if status_code e \<noteq> None then (Inr None, h @ [BucketsGet bucket_name])
          else (Inl e, h @ [BucketsGet bucket_name]))"

text \<open>
  \<^verbatim>\<open>get_project_number\<close>. A bucket message is a truthy object, so \<^verbatim>\<open>if bucket_metadata\<close>
  holds exactly when \<^verbatim>\<open>get_bucket\<close> did not return \<^verbatim>\<open>None\<close>.
\<close>

definition get_project_number ::
  "remote \<Rightarrow> string \<Rightarrow> gcsio \<times> trace \<Rightarrow> (exn + int option) \<times> gcsio \<times> trace" where
  "get_project_number R bucket st =
     (let io = fst st; h = snd st in
      if bucket \<notin> dom (bucket_to_project_number io) then
        (case get_bucket R bucket h of
           (Inl e, h') \<Rightarrow> (Inl e, io, h')
         | (Inr None, h') \<Rightarrow>
             (Inr (case bucket_to_project_number io bucket of None \<Rightarrow> None | Some v \<Rightarrow> v), io, h')
         | (Inr (Some bucket_metadata), h') \<Rightarrow>
             (let io' = io\<lparr>bucket_to_project_number :=
                          (bucket_to_project_number io)(bucket \<mapsto> projectNumber bucket_metadata)\<rparr>
              in (Inr (case bucket_to_project_number io' bucket of None \<Rightarrow> None | Some v \<Rightarrow> v),
                  io', h')))
      else
        (Inr (case bucket_to_project_number io bucket of None \<Rightarrow> None | Some v \<Rightarrow> v), io, h))"

text \<open>A run of lookups, one after the other; a lookup that raises does not stop the next.\<close>

fun get_project_numbers :: "remote \<Rightarrow> string list \<Rightarrow> gcsio \<times> trace \<Rightarrow> gcsio \<times> trace" where
  "get_project_numbers R [] st = st"
| "get_project_numbers R (b # bs) st = get_project_numbers R bs (snd (get_project_number R b st))"

subsection \<open>GcsIO: delete and delete_batch\<close>

text \<open>
  The body of \<^verbatim>\<open>delete\<close>: a 404 of the client returns normally, any other exception is
  raised again. The method is decorated with the retry wrapper.
\<close>

definition delete_body :: "remote \<Rightarrow> string \<Rightarrow> trace \<Rightarrow> (exn + unit) \<times> trace" where
  "delete_body R path h =
     (case parse_gcs_path path False of
        Inl e \<Rightarrow> (Inl e, h)
      | Inr (bucket, object_path) \<Rightarrow>
          (let request = \<lparr>delete_bucket = bucket, delete_object = object_path\<rparr> in
           case objects_Delete R h request of
             None \<Rightarrow> (Inr (), h @ [ObjectsDelete request])
           | Some e \<Rightarrow>
               if status_code e = Some 404 then (Inr (), h @ [ObjectsDelete request])
               else (Inl e, h @ [ObjectsDelete request])))"

definition delete :: "remote \<Rightarrow> retry_policy \<Rightarrow> string \<Rightarrow> trace \<Rightarrow> (exn + unit) \<times> trace" where
  "delete R pol path h = with_exponential_backoff pol (delete_body R path) h"

text \<open>The requests of one chunk, in order; the first path that does not parse raises.\<close>

definition delete_request_of :: "string \<Rightarrow> exn + delete_request" where
  "delete_request_of path =
     (case parse_gcs_path path False of
        Inl e \<Rightarrow> Inl e
      | Inr (bucket, object_path) \<Rightarrow> Inr \<lparr>delete_bucket = bucket, delete_object = object_path\<rparr>)"

fun delete_requests :: "string list \<Rightarrow> exn + delete_request list" where
  "delete_requests [] = Inr []"
| "delete_requests (path # paths) =
     (case delete_request_of path of
        Inl e \<Rightarrow> Inl e
      | Inr request \<Rightarrow>
          (case delete_requests paths of
             Inl e \<Rightarrow> Inl e
           | Inr requests \<Rightarrow> Inr (request # requests)))"

text \<open>
  The status recorded for one sub-request: \<^verbatim>\<open>None\<close> unless it is an error, and \<^verbatim>\<open>None\<close>
  again when the error is an \<^verbatim>\<open>HttpError\<close> with status 404.
\<close>

definition delete_status :: "unit api_call \<Rightarrow> exn option" where
  "delete_status api_call =
     (if is_error api_call then
        (case exception api_call of
           None \<Rightarrow> None
         | Some e \<Rightarrow> if status_code e = Some 404 then None else Some e)
      else None)"

text \<open>
  \<^verbatim>\<open>for i, api_call in enumerate(api_calls)\<close>: \<^verbatim>\<open>paths_chunk[i]\<close> raises \<^verbatim>\<open>IndexError\<close> when
  the batch layer returns more calls than the chunk has paths.
\<close>

fun delete_statuses :: "string list \<Rightarrow> nat \<Rightarrow> unit api_call list \<Rightarrow> exn + (string \<times> exn option) list" where
  "delete_statuses paths_chunk i [] = Inr []"
| "delete_statuses paths_chunk i (api_call # api_calls) =
     (if i < length paths_chunk then
        (case delete_statuses paths_chunk (Suc i) api_calls of
           Inl e \<Rightarrow> Inl e
         | Inr statuses \<Rightarrow> Inr ((paths_chunk ! i, delete_status api_call) # statuses))
      else Inl IndexError)"

text \<open>
  The \<^verbatim>\<open>while True\<close> loop: \<^verbatim>\<open>islice\<close> takes the next chunk of at most
  \<open>MAX_BATCH_OPERATION_SIZE\<close> paths off the iterator; the loop ends on an empty chunk.
\<close>

function delete_batch_loop ::
  "remote \<Rightarrow> string list \<Rightarrow> (string \<times> exn option) list \<Rightarrow> trace \<Rightarrow>
   (exn + (string \<times> exn option) list) \<times> trace" where
  "delete_batch_loop R paths result_statuses h =
     (if take MAX_BATCH_OPERATION_SIZE paths = [] then (Inr result_statuses, h)
      else
        (case delete_requests (take MAX_BATCH_OPERATION_SIZE paths) of
           Inl e \<Rightarrow> (Inl e, h)
         | Inr requests \<Rightarrow>
             (case batch_Delete R h requests of
                Inl e \<Rightarrow> (Inl e, h @ [BatchDelete requests])
              | Inr api_calls \<Rightarrow>
                  (case delete_statuses (take MAX_BATCH_OPERATION_SIZE paths) 0 api_calls of
                     Inl e \<Rightarrow> (Inl e, h @ [BatchDelete requests])
                   | Inr statuses \<Rightarrow>
                       delete_batch_loop R (drop MAX_BATCH_OPERATION_SIZE paths)
                         (result_statuses @ statuses) (h @ [BatchDelete requests])))))"
  by pat_completeness auto
termination
  by (relation "measure (\<lambda>(R, paths, acc, h). length paths)")
     (auto simp: MAX_BATCH_OPERATION_SIZE_def)

definition delete_batch ::
  "remote \<Rightarrow> string list \<Rightarrow> trace \<Rightarrow> (exn + (string \<times> exn option) list) \<times> trace" where
  "delete_batch R paths h =
     (if paths = [] then (Inr [], h) else delete_batch_loop R paths [] h)"


text \<open>
  The sub-requests of a run of delete batches sent from the trace \<open>h\<close> on, each with the
  call that the batch layer returned for it: the call at the same position of the same
  batch.
\<close>

fun delete_exchanges ::
  "remote \<Rightarrow> trace \<Rightarrow> delete_request list list \<Rightarrow> (delete_request \<times> unit api_call) list" where
  "delete_exchanges R h [] = []"
| "delete_exchanges R h (b # bs) =
     (case batch_Delete R h b of Inl e \<Rightarrow> [] | Inr api_calls \<Rightarrow> zip b api_calls)
     @ delete_exchanges R (h @ [BatchDelete b]) bs"

subsection \<open>GcsIO: copy\<close>

text \<open>
  The test hook: \<^verbatim>\<open>if self._rewrite_cb is not None: self._rewrite_cb(response)\<close>. The
  callback only receives the response; what it received is kept in the object.
\<close>

definition call_rewrite_cb :: "gcsio \<Rightarrow> rewrite_response option \<Rightarrow> gcsio" where
  "call_rewrite_cb io resp =
     (case rewrite_cb io of
        None \<Rightarrow> io
      | Some seen \<Rightarrow> io\<lparr>rewrite_cb := Some (seen @ [resp])\<rparr>)"

definition rewrite_request_of ::
  "string \<Rightarrow> string \<Rightarrow> string option \<Rightarrow> int option \<Rightarrow> exn + rewrite_request" where
  "rewrite_request_of src dest dest_kms_key_name max_bytes_rewritten_per_call =
     (case parse_gcs_path src False of
        Inl e \<Rightarrow> Inl e
      | Inr (src_bucket, src_path) \<Rightarrow>
          (case parse_gcs_path dest False of
             Inl e \<Rightarrow> Inl e
           | Inr (dest_bucket, dest_path) \<Rightarrow>
               Inr \<lparr>sourceBucket = src_bucket, sourceObject = src_path,
                    destinationBucket = dest_bucket, destinationObject = dest_path,
                    destinationKmsKeyName = dest_kms_key_name,
                    maxBytesRewrittenPerCall = max_bytes_rewritten_per_call,
                    rewriteToken = None\<rparr>))"

text \<open>
  \<^verbatim>\<open>while not response.done\<close>: the token of the response goes into the request, which is
  sent again. The loop runs as long as the service answers "not done"; a run that never
  ends is the value \<open>None\<close>.
\<close>

partial_function (option) copy_loop ::
  "remote \<Rightarrow> rewrite_request \<Rightarrow> rewrite_response \<Rightarrow> gcsio \<times> trace \<Rightarrow>
   ((exn + unit) \<times> gcsio \<times> trace) option" where
  "copy_loop R request resp st =
     (if rw_done resp then Some (Inr (), st)
      else
        (case objects_Rewrite R (snd st) (request\<lparr>rewriteToken := rw_rewriteToken resp\<rparr>) of
           Inl e \<Rightarrow>
             Some (Inl e, fst st,
                   snd st @ [ObjectsRewrite (request\<lparr>rewriteToken := rw_rewriteToken resp\<rparr>)])
         | Inr resp' \<Rightarrow>
             copy_loop R (request\<lparr>rewriteToken := rw_rewriteToken resp\<rparr>) resp'
               (call_rewrite_cb (fst st) (Some resp'),
                snd st @ [ObjectsRewrite (request\<lparr>rewriteToken := rw_rewriteToken resp\<rparr>)])))"

definition copy_body ::
  "remote \<Rightarrow> string \<Rightarrow> string \<Rightarrow> string option \<Rightarrow> int option \<Rightarrow> gcsio \<times> trace \<Rightarrow>
   ((exn + unit) \<times> gcsio \<times> trace) option" where
  "copy_body R src dest dest_kms_key_name max_bytes_rewritten_per_call st =
     (case rewrite_request_of src dest dest_kms_key_name max_bytes_rewritten_per_call of
        Inl e \<Rightarrow> Some (Inl e, st)
      | Inr request \<Rightarrow>
          (case objects_Rewrite R (snd st) request of
             Inl e \<Rightarrow> Some (Inl e, fst st, snd st @ [ObjectsRewrite request])
           | Inr resp \<Rightarrow>
               copy_loop R request resp (fst st, snd st @ [ObjectsRewrite request])))"

text \<open>The retry wrapper around a method that may not return.\<close>

fun retry_loop_opt ::
  "(exn \<Rightarrow> bool) \<Rightarrow> nat \<Rightarrow> ('s \<Rightarrow> ((exn + 'a) \<times> 's) option) \<Rightarrow> 's \<Rightarrow> ((exn + 'a) \<times> 's) option" where
  "retry_loop_opt flt 0 f s = f s"
| "retry_loop_opt flt (Suc n) f s =
     (case f s of
        None \<Rightarrow> None
      | Some (Inl e, s') \<Rightarrow> if flt e then retry_loop_opt flt n f s' else Some (Inl e, s')
      | Some (Inr v, s') \<Rightarrow> Some (Inr v, s'))"

definition copy ::
  "remote \<Rightarrow> retry_policy \<Rightarrow> string \<Rightarrow> string \<Rightarrow> string option \<Rightarrow> int option \<Rightarrow>
   gcsio \<times> trace \<Rightarrow> ((exn + unit) \<times> gcsio \<times> trace) option" where
  "copy R pol src dest dest_kms_key_name max_bytes_rewritten_per_call st =
     retry_loop_opt (retry_filter pol) (num_retries pol)
       (copy_body R src dest dest_kms_key_name max_bytes_rewritten_per_call) st"

subsection \<open>GcsIO: copy_batch\<close>

type_synonym pair = "string \<times> string"

text \<open>The first loop: \<^verbatim>\<open>pair_to_request[pair] = request\<close> for every pair of the input.\<close>

fun pair_requests ::
  "pair list \<Rightarrow> string option \<Rightarrow> int option \<Rightarrow> (pair \<rightharpoonup> rewrite_request) \<Rightarrow>
   exn + (pair \<rightharpoonup> rewrite_request)" where
  "pair_requests [] kms mb pair_to_request = Inr pair_to_request"
| "pair_requests (pair # pairs) kms mb pair_to_request =
     (case rewrite_request_of (fst pair) (snd pair) kms mb of
        Inl e \<Rightarrow> Inl e
      | Inr request \<Rightarrow> pair_requests pairs kms mb (pair_to_request(pair \<mapsto> request)))"

text \<open>\<^verbatim>\<open>pair_to_request[pair]\<close> for every pair of the batch.\<close>

fun batch_requests :: "(pair \<rightharpoonup> rewrite_request) \<Rightarrow> pair list \<Rightarrow> exn + rewrite_request list" where
  "batch_requests pair_to_request [] = Inr []"
| "batch_requests pair_to_request (pair # pairs) =
     (case pair_to_request pair of
        None \<Rightarrow> Inl KeyError
      | Some request \<Rightarrow>
          (case batch_requests pair_to_request pairs of
             Inl e \<Rightarrow> Inl e
           | Inr requests \<Rightarrow> Inr (request # requests)))"

text \<open>
  The status recorded for a sub-request that is an error: a 404 becomes
  \<^verbatim>\<open>GcsIOError(errno.ENOENT, 'Source file not found: %s' % src)\<close>.
\<close>

definition copy_error_status :: "string \<Rightarrow> exn option \<Rightarrow> exn option" where
  "copy_error_status src exc =
     (case exc of
        None \<Rightarrow> None
      | Some e \<Rightarrow>
          if status_code e = Some 404
          then Some (GcsIOError ENOENT (''Source file not found: '' @ src))
          else Some e)"

text \<open>
  \<^verbatim>\<open>for pair, api_call in zip(pairs_in_batch, api_calls)\<close>. The state is the two
  dictionaries and the object. A call that is no error and has no response raises
  \<^verbatim>\<open>AttributeError\<close> at \<^verbatim>\<open>response.done\<close>.
\<close>

fun process_batch ::
  "(pair \<times> rewrite_response api_call) list \<Rightarrow>
   (pair \<rightharpoonup> rewrite_request) \<times> (pair \<rightharpoonup> exn option) \<times> gcsio \<Rightarrow>
   (exn + unit) \<times> (pair \<rightharpoonup> rewrite_request) \<times> (pair \<rightharpoonup> exn option) \<times> gcsio" where
  "process_batch [] st = (Inr (), st)"
| "process_batch ((pair, api_call) # rest) (pair_to_request, pair_to_status, io) =
     (if is_error api_call then
        process_batch rest
          (pair_to_request,
           pair_to_status(pair \<mapsto> copy_error_status (fst pair) (exception api_call)),
           call_rewrite_cb io (response api_call))
      else
        (case response api_call of
           None \<Rightarrow>
             (Inl AttributeError, pair_to_request, pair_to_status,
              call_rewrite_cb io (response api_call))
         | Some resp \<Rightarrow>
             if \<not> rw_done resp then
               (case pair_to_request pair of
                  None \<Rightarrow>
                    (Inl KeyError, pair_to_request, pair_to_status,
                     call_rewrite_cb io (response api_call))
                | Some request \<Rightarrow>
                    process_batch rest
                      (pair_to_request(pair \<mapsto> request\<lparr>rewriteToken := rw_rewriteToken resp\<rparr>),
                       pair_to_status,
                       call_rewrite_cb io (response api_call)))
             else
               process_batch rest
                 (pair_to_request, pair_to_status(pair \<mapsto> None),
                  call_rewrite_cb io (response api_call))))"

text \<open>
  The \<^verbatim>\<open>while True\<close> loop. \<^verbatim>\<open>list(set(src_dest_pairs) - set(pair_to_status))\<close> holds each
  pair without a status once, in the order in which Python iterates over the set; that
  order is the parameter \<open>set_order\<close>, applied to the list of these pairs without
  repetitions. The loop ends when no pair is left, and it need not end: the first argument
  bounds the number of rounds, and \<open>None\<close> in the result says that the loop was still
  running when the bound was reached.
\<close>

fun copy_batch_loop ::
  "nat \<Rightarrow> remote \<Rightarrow> (pair list \<Rightarrow> pair list) \<Rightarrow> pair list \<Rightarrow>
   (pair \<rightharpoonup> rewrite_request) \<times> (pair \<rightharpoonup> exn option) \<times> gcsio \<times> trace \<Rightarrow>
   (exn + (pair \<rightharpoonup> exn option)) option \<times> gcsio \<times> trace" where
  "copy_batch_loop 0 R set_order src_dest_pairs (pair_to_request, pair_to_status, io, h) =
     (None, io, h)"
| "copy_batch_loop (Suc n) R set_order src_dest_pairs (pair_to_request, pair_to_status, io, h) =
     (let pairs_in_batch =
            set_order (filter (\<lambda>p. pair_to_status p = None) (remdups src_dest_pairs))
      in if pairs_in_batch = [] then (Some (Inr pair_to_status), io, h)
         else
           (case batch_requests pair_to_request pairs_in_batch of
              Inl e \<Rightarrow> (Some (Inl e), io, h)
            | Inr requests \<Rightarrow>
                (case batch_Rewrite R h requests of
                   Inl e \<Rightarrow> (Some (Inl e), io, h @ [BatchRewrite requests])
                 | Inr api_calls \<Rightarrow>
                     (case process_batch (zip pairs_in_batch api_calls)
                             (pair_to_request, pair_to_status, io) of
                        (Inl e, p2r, p2s, io') \<Rightarrow> (Some (Inl e), io', h @ [BatchRewrite requests])
                      | (Inr u, p2r, p2s, io') \<Rightarrow>
                          copy_batch_loop n R set_order src_dest_pairs
                            (p2r, p2s, io', h @ [BatchRewrite requests])))))"

text \<open>The result list: \<^verbatim>\<open>(pair[0], pair[1], pair_to_status[pair])\<close> for every input pair.\<close>

fun copy_results ::
  "(pair \<rightharpoonup> exn option) \<Rightarrow> pair list \<Rightarrow> exn + (string \<times> string \<times> exn option) list" where
  "copy_results pair_to_status [] = Inr []"
| "copy_results pair_to_status (pair # pairs) =
     (case pair_to_status pair of
        None \<Rightarrow> Inl KeyError
      | Some status \<Rightarrow>
          (case copy_results pair_to_status pairs of
             Inl e \<Rightarrow> Inl e
           | Inr results \<Rightarrow> Inr ((fst pair, snd pair, status) # results)))"

definition copy_batch ::
  "nat \<Rightarrow> remote \<Rightarrow> (pair list \<Rightarrow> pair list) \<Rightarrow> pair list \<Rightarrow> string option \<Rightarrow> int option \<Rightarrow>
   gcsio \<times> trace \<Rightarrow> (exn + (string \<times> string \<times> exn option) list) option \<times> gcsio \<times> trace" where
  "copy_batch fuel R set_order src_dest_pairs dest_kms_key_name max_bytes_rewritten_per_call st =
     (if src_dest_pairs = [] then (Some (Inr []), st)
      else
        (case pair_requests src_dest_pairs dest_kms_key_name max_bytes_rewritten_per_call Map.empty of
           Inl e \<Rightarrow> (Some (Inl e), st)
         | Inr pair_to_request \<Rightarrow>
             (case copy_batch_loop fuel R set_order src_dest_pairs
                     (pair_to_request, Map.empty, fst st, snd st) of
                (None, st') \<Rightarrow> (None, st')
              | (Some (Inl e), st') \<Rightarrow> (Some (Inl e), st')
              | (Some (Inr pair_to_status), st') \<Rightarrow>
                  (case copy_results pair_to_status src_dest_pairs of
                     Inl e \<Rightarrow> (Some (Inl e), st')
                   | Inr results \<Rightarrow> (Some (Inr results), st')))))"

subsection \<open>GcsDownloader\<close>

text \<open>
  \<^verbatim>\<open>io.BytesIO\<close>: the bytes and the position. \<^verbatim>\<open>truncate\<close> keeps the position; a write
  beyond the end pads with zero bytes.
\<close>

record bytesio =
  bio_buf :: bytes
  bio_pos :: nat

definition bytesio_seek :: "bytesio \<Rightarrow> nat \<Rightarrow> bytesio" where
  "bytesio_seek s n = s\<lparr>bio_pos := n\<rparr>"

definition bytesio_truncate :: "bytesio \<Rightarrow> nat \<Rightarrow> bytesio" where
  "bytesio_truncate s n = s\<lparr>bio_buf := take n (bio_buf s)\<rparr>"

definition bytesio_write :: "bytesio \<Rightarrow> bytes \<Rightarrow> bytesio" where
  "bytesio_write s data =
     \<lparr>bio_buf = take (bio_pos s) (bio_buf s @ replicate (bio_pos s - length (bio_buf s)) 0)
                 @ data @ drop (bio_pos s + length data) (bio_buf s),
      bio_pos = bio_pos s + length data\<rparr>"

definition bytesio_getvalue :: "bytesio \<Rightarrow> bytes" where
  "bytesio_getvalue s = bio_buf s"

text \<open>
  The fields of a \<^verbatim>\<open>GcsDownloader\<close>. \<open>d_downloader\<close> is the transfer object;
  \<open>d_download_request\<close> is the request it was initialised with by
  \<^verbatim>\<open>objects.Get(self._get_request, download=self._downloader)\<close>, which is what its later
  range requests are made for.
\<close>

record downloader =
  d_path :: string
  d_bucket :: string
  d_name :: string
  d_buffer_size :: int
  d_get_request :: get_request
  d_size :: int
  d_download_stream :: bytesio
  d_downloader :: download_cfg
  d_download_request :: get_request

text \<open>\<^verbatim>\<open>_get_object_metadata\<close>: one \<^verbatim>\<open>objects.Get\<close>, under the retry decorator.\<close>

definition get_object_metadata ::
  "remote \<Rightarrow> retry_policy \<Rightarrow> get_request \<Rightarrow> trace \<Rightarrow> (exn + object_msg) \<times> trace" where
  "get_object_metadata R pol get_req h =
     with_exponential_backoff pol (\<lambda>h'. (objects_Get R h' get_req, h' @ [ObjectsGet get_req])) h"

text \<open>
  \<^verbatim>\<open>GcsDownloader.__init__\<close>. The project number only labels the metric. A 404 of the
  metadata request becomes \<^verbatim>\<open>IOError(errno.ENOENT, 'Not found: %s' % path)\<close>; any other
  exception passes.
\<close>

definition GcsDownloader_init ::
  "remote \<Rightarrow> retry_policy \<Rightarrow> string \<Rightarrow> int \<Rightarrow> gcsio \<times> trace \<Rightarrow>
   (exn + downloader) \<times> gcsio \<times> trace" where
  "GcsDownloader_init R pol path buffer_size st =
     (case parse_gcs_path path False of
        Inl e \<Rightarrow> (Inl e, st)
      | Inr (bucket, name) \<Rightarrow>
          (case get_project_number R bucket st of
             (Inl e, st1) \<Rightarrow> (Inl e, st1)
           | (Inr project_number, io1, h1) \<Rightarrow>
               (case get_object_metadata R pol
                       \<lparr>get_bucket_name = bucket, get_object = name, generation = None\<rparr> h1 of
                  (Inl e, h2) \<Rightarrow>
                    if status_code e = Some 404
                    then (Inl (IOError ENOENT (''Not found: '' @ path)), io1, h2)
                    else (Inl e, io1, h2)
                | (Inr metadata, h2) \<Rightarrow>
                    (let get_req = \<lparr>get_bucket_name = bucket, get_object = name,
                                    generation = obj_generation metadata\<rparr>;
                         cfg = \<lparr>dl_auto_transfer = False, dl_chunksize = buffer_size,
                                dl_num_retries = 20\<rparr>
                     in case objects_Get_download R h2 get_req cfg of
                          Some e \<Rightarrow> (Inl e, io1, h2 @ [ObjectsGetDownload get_req cfg])
                        | None \<Rightarrow>
                            (Inr \<lparr>d_path = path, d_bucket = bucket, d_name = name,
                                  d_buffer_size = buffer_size, d_get_request = get_req,
                                  d_size = obj_size metadata,
                                  d_download_stream = \<lparr>bio_buf = [], bio_pos = 0\<rparr>,
                                  d_downloader = cfg, d_download_request = get_req\<rparr>,
                             io1, h2 @ [ObjectsGetDownload get_req cfg])))))"

text \<open>
  \<^verbatim>\<open>get_range\<close>: the stream is emptied, the transfer object fetches the bytes \<open>start\<close> to
  \<open>end - 1\<close> into it, and the value of the stream is returned. The method has no retry
  decorator: an exception of \<^verbatim>\<open>GetRange\<close> leaves it as it is.
\<close>

definition get_range ::
  "remote \<Rightarrow> downloader \<Rightarrow> int \<Rightarrow> int \<Rightarrow> trace \<Rightarrow> (exn + bytes) \<times> downloader \<times> trace" where
  "get_range R d start end' h =
     (let stream = bytesio_truncate (bytesio_seek (d_download_stream d) 0) 0;
          c = DownloadGetRange (d_download_request d) (d_downloader d) start (end' - 1)
      in case download_GetRange R h (d_download_request d) (d_downloader d) start (end' - 1) of
           Inl e \<Rightarrow> (Inl e, d\<lparr>d_download_stream := stream\<rparr>, h @ [c])
         | Inr data \<Rightarrow>
             (Inr (bytesio_getvalue (bytesio_write stream data)),
              d\<lparr>d_download_stream := bytesio_write stream data\<rparr>, h @ [c]))"

text \<open>A run of range reads on one session; a read that raises does not stop the next.\<close>

fun get_ranges :: "remote \<Rightarrow> (int \<times> int) list \<Rightarrow> downloader \<times> trace \<Rightarrow> downloader \<times> trace" where
  "get_ranges R [] st = st"
| "get_ranges R (r # rs) st = get_ranges R rs (snd (get_range R (fst st) (fst r) (snd r) (snd st)))"

text \<open>
  Modelled from the spec: the ranged GET of the service ("request (bucket, name,
  generation, rangeStart, rangeEnd) \<rightarrow> exactly the requested byte range"). The transfer
  library that performs it is not part of the source. \<open>content\<close> is the object at the
  generation of the request; the range is inclusive at both ends.
\<close>

definition ranged_get :: "remote \<Rightarrow> get_request \<Rightarrow> download_cfg \<Rightarrow> bytes \<Rightarrow> bool" where
  "ranged_get R get_req cfg content =
     (\<forall>h s l. 0 \<le> s \<and> s \<le> l \<and> l < int (length content) \<longrightarrow>
        download_GetRange R h get_req cfg s l = Inr (take (nat (l + 1 - s)) (drop (nat s) content)))"

subsection \<open>GcsUploader\<close>

text \<open>
  The upload thread: still running, ended, or killed by an exception that left
  \<^verbatim>\<open>_start_upload\<close>.
\<close>

datatype thread_state = Running | Finished | Died exn

text \<open>
  The fields of a \<^verbatim>\<open>GcsUploader\<close>: the two ends of the pipe (closed or not), the bytes sent
  into it, the upload thread and its \<^verbatim>\<open>last_error\<close>.
\<close>

record uploader =
  u_path :: string
  u_bucket :: string
  u_name :: string
  u_mime_type :: string
  u_insert_request :: insert_request
  u_upload :: upload_cfg
  u_conn_closed :: bool
  u_child_conn_closed :: bool
  u_sent :: "bytes list"
  u_thread :: thread_state
  last_error :: "exn option"

definition GcsUploader_init :: "string \<Rightarrow> string \<Rightarrow> exn + uploader" where
  "GcsUploader_init path mime_type =
     (case parse_gcs_path path False of
        Inl e \<Rightarrow> Inl e
      | Inr (bucket, name) \<Rightarrow>
          Inr \<lparr>u_path = path, u_bucket = bucket, u_name = name, u_mime_type = mime_type,
               u_insert_request = \<lparr>insert_bucket = bucket, insert_name = name\<rparr>,
               u_upload = \<lparr>up_mime_type = mime_type, up_chunksize = WRITE_CHUNK_SIZE,
                           up_resumable = True\<rparr>,
               u_conn_closed = False, u_child_conn_closed = False, u_sent = [],
               u_thread = Running, last_error = None\<rparr>)"

text \<open>
  \<^verbatim>\<open>_start_upload\<close>, the body of the thread, run in one step. The project number is looked
  up before the \<^verbatim>\<open>try\<close>: an exception of the lookup leaves the method, and the thread
  dies with it. Inside the \<^verbatim>\<open>try\<close>, an exception of \<^verbatim>\<open>objects.Insert\<close> is stored in
  \<^verbatim>\<open>last_error\<close>, and \<^verbatim>\<open>finally\<close> closes the child end of the pipe.
\<close>

definition start_upload :: "remote \<Rightarrow> uploader \<Rightarrow> gcsio \<times> trace \<Rightarrow> uploader \<times> gcsio \<times> trace" where
  "start_upload R u st =
     (case get_project_number R (u_bucket u) st of
        (Inl e, st1) \<Rightarrow> (u\<lparr>u_thread := Died e\<rparr>, st1)
      | (Inr project_number, io1, h1) \<Rightarrow>
          (case objects_Insert R h1 (u_insert_request u) (u_upload u) of
             None \<Rightarrow>
               (u\<lparr>u_child_conn_closed := True, u_thread := Finished\<rparr>,
                io1, h1 @ [ObjectsInsert (u_insert_request u) (u_upload u)])
           | Some e \<Rightarrow>
               (u\<lparr>last_error := Some e, u_child_conn_closed := True, u_thread := Finished\<rparr>,
                io1, h1 @ [ObjectsInsert (u_insert_request u) (u_upload u)])))"

text \<open>
  \<^verbatim>\<open>put\<close>. What \<^verbatim>\<open>send_bytes\<close> of the pipe does is the parameter \<open>send_bytes\<close>: given
  whether the two ends are closed and the data, the exception it raises, if any. Only an
  \<^verbatim>\<open>EOFError\<close> is caught; then the stored error is raised if there is one.
\<close>

definition put ::
  "(bool \<Rightarrow> bool \<Rightarrow> bytes \<Rightarrow> exn option) \<Rightarrow> uploader \<Rightarrow> bytes \<Rightarrow> (exn + unit) \<times> uploader" where
  "put send_bytes u data =
     (case send_bytes (u_conn_closed u) (u_child_conn_closed u) data of
        None \<Rightarrow> (Inr (), u\<lparr>u_sent := u_sent u @ [data]\<rparr>)
      | Some e \<Rightarrow>
          if e = EOFError then
            (case last_error u of
               Some stored \<Rightarrow> (Inl stored, u)
             | None \<Rightarrow> (Inl e, u))
          else (Inl e, u))"

text \<open>
  Modelled from the spec: the pipe (\<^verbatim>\<open>multiprocessing.Pipe\<close>) is not part of the source. The
  spec: the failed task "closes its end of the channel so that a blocked put() observes
  end-of-stream". Sending into a pipe whose other end is closed is an \<^verbatim>\<open>EOFError\<close>.
\<close>

definition pipe_send_bytes :: "bool \<Rightarrow> bool \<Rightarrow> bytes \<Rightarrow> exn option" where
  "pipe_send_bytes conn_closed child_conn_closed data =
     (if child_conn_closed then Some EOFError else None)"

text \<open>
  \<^verbatim>\<open>finish\<close>: the parent end is closed, \<^verbatim>\<open>join\<close> waits for the thread (a thread that is
  still running runs to its end here), and the stored error is raised if there is one.
\<close>

definition finish ::
  "remote \<Rightarrow> uploader \<Rightarrow> gcsio \<times> trace \<Rightarrow> (exn + unit) \<times> uploader \<times> gcsio \<times> trace" where
  "finish R u st =
     (let u1 = u\<lparr>u_conn_closed := True\<rparr>;
          joined = (if u_thread u1 = Running then start_upload R u1 st else (u1, st))
      in case last_error (fst joined) of
           Some e \<Rightarrow> (Inl e, joined)
         | None \<Rightarrow> (Inr (), joined))"

subsection \<open>Well-formed paths\<close>

text \<open>A path of the form \<^verbatim>\<open>gs://<bucket>/<object>\<close>: one that \<^verbatim>\<open>parse_gcs_path\<close> accepts.\<close>

definition well_formed :: "string \<Rightarrow> bool" where
  "well_formed path = (case parse_gcs_path path False of Inl e \<Rightarrow> False | Inr x \<Rightarrow> True)"

subsection \<open>A concrete service, for the examples\<close>

text \<open>
  The bucket \<^verbatim>\<open>missing\<close> does not exist; the object \<^verbatim>\<open>gone\<close> does not exist and the
  object \<^verbatim>\<open>locked\<close> may not be touched (status 403); every other request succeeds.
\<close>

definition content0 :: bytes where
  "content0 = [10, 20, 30, 40, 50, 60, 70, 80]"

definition delete_call0 :: "delete_request \<Rightarrow> unit api_call" where
  "delete_call0 r =
     (if delete_object r = ''gone''
        then \<lparr>is_error = True, exception = Some (HttpError 404), response = None\<rparr>
      else if delete_object r = ''locked''
        then \<lparr>is_error = True, exception = Some (HttpError 403), response = None\<rparr>
      else \<lparr>is_error = False, exception = None, response = Some ()\<rparr>)"

definition rewrite_done0 :: rewrite_response where
  "rewrite_done0 = \<lparr>rw_done = True, rw_rewriteToken = None, totalBytesRewritten = 8, objectSize = 8\<rparr>"

definition rewrite_call0 :: "rewrite_request \<Rightarrow> rewrite_response api_call" where
  "rewrite_call0 r =
     (if sourceObject r = ''gone''
        then \<lparr>is_error = True, exception = Some (HttpError 404), response = None\<rparr>
      else \<lparr>is_error = False, exception = None, response = Some rewrite_done0\<rparr>)"

definition remote0 :: remote where
  "remote0 = \<lparr>
     buckets_Get = (\<lambda>h b. if b = ''missing'' then Inl (HttpError 404)
                           else Inr \<lparr>projectNumber = Some 42\<rparr>),
     objects_Get = (\<lambda>h r. Inr \<lparr>obj_size = 8, obj_generation = Some 7\<rparr>),
     objects_Get_download = (\<lambda>h r c. None),
     download_GetRange = (\<lambda>h r c s l. Inr (take (nat (l + 1 - s)) (drop (nat s) content0))),
     objects_Delete = (\<lambda>h r. if delete_object r = ''gone'' then Some (HttpError 404)
                             else if delete_object r = ''locked'' then Some (HttpError 403)
                             else None),
     objects_Rewrite = (\<lambda>h r. Inr rewrite_done0),
     batch_Delete = (\<lambda>h rs. Inr (map delete_call0 rs)),
     batch_Rewrite = (\<lambda>h rs. Inr (map rewrite_call0 rs)),
     objects_Insert = (\<lambda>h r c. None)\<rparr>"

definition paths0 :: "string list" where
  "paths0 = ''gs://b/locked'' # replicate 100 ''gs://b/ok'' @ [''gs://b/gone'']"

definition policy0 :: retry_policy where
  "policy0 = \<lparr>num_retries = 7,
              retry_filter = (\<lambda>e. case status_code e of None \<Rightarrow> False | Some c \<Rightarrow> 500 \<le> c)\<rparr>"

subsection \<open>A scripted copy, for the examples\<close>

text \<open>
  The service answers the first three calls with "not done, token T1", "not done, token
  T2" and "done".
\<close>

definition script3 :: "rewrite_response list" where
  "script3 =
     [\<lparr>rw_done = False, rw_rewriteToken = Some ''T1'', totalBytesRewritten = 3, objectSize = 8\<rparr>,
      \<lparr>rw_done = False, rw_rewriteToken = Some ''T2'', totalBytesRewritten = 6, objectSize = 8\<rparr>,
      \<lparr>rw_done = True, rw_rewriteToken = None, totalBytesRewritten = 8, objectSize = 8\<rparr>]"

definition remote3 :: remote where
  "remote3 = remote0\<lparr>objects_Rewrite :=
     (\<lambda>h req. if length h < length script3 then Inr (script3 ! length h)
               else Inl (HttpError 400))\<rparr>"

definition request3 :: rewrite_request where
  "request3 = \<lparr>sourceBucket = ''b'', sourceObject = ''a'',
               destinationBucket = ''c'', destinationObject = ''d'',
               destinationKmsKeyName = None, maxBytesRewrittenPerCall = None,
               rewriteToken = None\<rparr>"

subsection \<open>copy_batch with a missing source: what is assumed and what is kept\<close>

text \<open>
  What is known of the iteration order of a Python set: it lists every element once.
\<close>

definition set_order_ok :: "(pair list \<Rightarrow> pair list) \<Rightarrow> bool" where
  "set_order_ok f = (\<forall>xs. distinct xs \<longrightarrow> distinct (f xs) \<and> set (f xs) = set xs)"

text \<open>The source of a rewrite request, as bucket and object name.\<close>

definition source_of :: "rewrite_request \<Rightarrow> string \<times> string" where
  "source_of r = (sourceBucket r, sourceObject r)"

text \<open>
  The status expected for a pair when the only failure is that the source \<open>m\<close> does not
  exist: the error of \<^verbatim>\<open>copy_batch\<close> for a missing source if the pair's source is \<open>m\<close>,
  and \<^verbatim>\<open>None\<close> otherwise.
\<close>

definition not_found_status :: "string \<times> string \<Rightarrow> pair \<Rightarrow> exn option" where
  "not_found_status m p =
     (if parse_gcs_path (fst p) False = Inr m
      then Some (GcsIOError ENOENT (''Source file not found: '' @ fst p))
      else None)"

text \<open>
  The answers of the batch layer when the source \<open>m\<close> is missing and nothing else fails: a
  sub-request whose source is \<open>m\<close> comes back as an error with status 404; any other comes
  back with a response, which is done when \<open>late\<close> holds.
\<close>

definition answer_ok :: "string \<times> string \<Rightarrow> bool \<Rightarrow> rewrite_request \<Rightarrow> rewrite_response api_call \<Rightarrow> bool" where
  "answer_ok m late r c =
     (if source_of r = m then is_error c \<and> exception c = Some (HttpError 404)
      else \<not> is_error c \<and> (\<exists>resp. response c = Some resp \<and> (late \<longrightarrow> rw_done resp)))"

text \<open>
  Two invariants of the loop of \<^verbatim>\<open>copy_batch\<close>: every input pair has a request whose source
  is the parsed source of the pair, and every recorded status is the expected one.
\<close>

definition requests_inv :: "pair list \<Rightarrow> (pair \<rightharpoonup> rewrite_request) \<Rightarrow> bool" where
  "requests_inv pairs p2r =
     (\<forall>p\<in>set pairs. \<exists>r. p2r p = Some r \<and> parse_gcs_path (fst p) False = Inr (source_of r))"

definition status_inv :: "string \<times> string \<Rightarrow> (pair \<rightharpoonup> exn option) \<Rightarrow> bool" where
  "status_inv m p2s = (\<forall>p v. p2s p = Some v \<longrightarrow> v = not_found_status m p)"

text \<open>
  A service for a batch copy: the source \<^verbatim>\<open>gs://b/gone\<close> is missing; every other rewrite
  is not done in the first round and done from the second round on.
\<close>

definition not_done5 :: rewrite_response where
  "not_done5 = \<lparr>rw_done = False, rw_rewriteToken = Some ''T'', totalBytesRewritten = 4, objectSize = 8\<rparr>"

definition rewrite_call5 :: "trace \<Rightarrow> rewrite_request \<Rightarrow> rewrite_response api_call" where
  "rewrite_call5 h r =
     (if sourceBucket r = ''b'' \<and> sourceObject r = ''gone''
        then \<lparr>is_error = True, exception = Some (HttpError 404), response = None\<rparr>
      else if length h < 1
        then \<lparr>is_error = False, exception = None, response = Some not_done5\<rparr>
      else \<lparr>is_error = False, exception = None, response = Some rewrite_done0\<rparr>)"

definition remote5 :: remote where
  "remote5 = remote0\<lparr>batch_Rewrite := (\<lambda>h rs. Inr (map (rewrite_call5 h) rs))\<rparr>"

definition pairs5 :: "pair list" where
  "pairs5 = [(''gs://b/one'', ''gs://c/one''), (''gs://b/gone'', ''gs://c/two''),
             (''gs://b/three'', ''gs://c/three'')]"

subsection \<open>Observing the batches of copy_batch\<close>

text \<open>The sizes of the rewrite batches of a trace, in order.\<close>

fun batch_sizes :: "trace \<Rightarrow> nat list" where
  "batch_sizes [] = []"
| "batch_sizes (BatchRewrite requests # h) = length requests # batch_sizes h"
| "batch_sizes (c # h) = batch_sizes h"

text \<open>One iteration order of the pending set: the order of the input.\<close>

definition input_order :: "pair list \<Rightarrow> pair list" where
  "input_order xs = xs"

text \<open>101 pairs with distinct sources and destinations.\<close>

definition pairs101 :: "pair list" where
  "pairs101 =
     map (\<lambda>i. (''gs://b/'' @ replicate (Suc i) (CHR ''x''), ''gs://c/'' @ replicate (Suc i) (CHR ''x'')))
       [0..<101]"

subsection \<open>The rounds of copy_batch, as they show in its calls\<close>

text \<open>
  A call after which \<^verbatim>\<open>copy_batch\<close> records a status for the pair: an error, or a response
  that is done.
\<close>

definition settled :: "rewrite_response api_call \<Rightarrow> bool" where
  "settled c = (is_error c \<or> (case response c of None \<Rightarrow> False | Some r \<Rightarrow> rw_done r))"

text \<open>
  \<open>r\<close> is a rewrite request for the pair \<open>p\<close>: its token apart, it is the request that
  \<^verbatim>\<open>copy_batch\<close> builds from the source and the destination of \<open>p\<close>, the key and the limit
  of bytes per call.
\<close>

definition request_for :: "string option \<Rightarrow> int option \<Rightarrow> pair \<Rightarrow> rewrite_request \<Rightarrow> bool" where
  "request_for kms mb p r =
     (rewrite_request_of (fst p) (snd p) kms mb = Inr (r\<lparr>rewriteToken := None\<rparr>))"

text \<open>
  The rounds of \<^verbatim>\<open>copy_batch\<close>, as they show in its calls. \<open>D\<close> holds the pairs with a recorded
  outcome (the keys of \<^verbatim>\<open>pair_to_status\<close>) and \<open>bs\<close> the batches sent from the trace \<open>h\<close> on,
  in at most \<open>n\<close> rounds. A round sends one batch: one request for each pair of the input
  that is not in \<open>D\<close>, each pair once, in the iteration order of the set. No batch is sent
  when no such pair is left. The rounds end with a batch that the batch layer refuses or
  answers with a call that is neither an error nor a response; otherwise the pairs whose
  call is settled join \<open>D\<close> and the next round follows.
\<close>

fun copy_rounds ::
  "nat \<Rightarrow> remote \<Rightarrow> (pair list \<Rightarrow> pair list) \<Rightarrow> pair list \<Rightarrow> string option \<Rightarrow> int option \<Rightarrow>
   trace \<Rightarrow> pair set \<Rightarrow> rewrite_request list list \<Rightarrow> bool" where
  "copy_rounds 0 R set_order src_dest_pairs kms mb h D bs = (bs = [])"
| "copy_rounds (Suc n) R set_order src_dest_pairs kms mb h D bs =
     (let pending = set_order (filter (\<lambda>p. p \<notin> D) (remdups src_dest_pairs))
      in case bs of
           [] \<Rightarrow> pending = []
         | b # bs' \<Rightarrow>
             pending \<noteq> [] \<and> list_all2 (request_for kms mb) pending b \<and>
             (case batch_Rewrite R h b of
                Inl e \<Rightarrow> bs' = []
              | Inr api_calls \<Rightarrow>
                  if \<exists>z\<in>set (zip pending api_calls). \<not> is_error (snd z) \<and> response (snd z) = None
                  then bs' = []
                  else copy_rounds n R set_order src_dest_pairs kms mb (h @ [BatchRewrite b])
                         (D \<union> set (map fst (filter (\<lambda>z. settled (snd z)) (zip pending api_calls))))
                         bs'))"

subsection \<open>A read session, for the examples\<close>

text \<open>The read session that the example service gives for \<^verbatim>\<open>gs://b/obj\<close>.\<close>

definition session0 :: downloader where
  "session0 =
     \<lparr>d_path = ''gs://b/obj'', d_bucket = ''b'', d_name = ''obj'', d_buffer_size = 16,
      d_get_request = \<lparr>get_bucket_name = ''b'', get_object = ''obj'', generation = Some 7\<rparr>,
      d_size = 8,
      d_download_stream = \<lparr>bio_buf = [], bio_pos = 0\<rparr>,
      d_downloader = \<lparr>dl_auto_transfer = False, dl_chunksize = 16, dl_num_retries = 20\<rparr>,
      d_download_request = \<lparr>get_bucket_name = ''b'', get_object = ''obj'', generation = Some 7\<rparr>\<rparr>"

text \<open>
  A service with transient failures: the first metadata request and the first range
  request of a kind are answered with status 503, the same request sent again succeeds.
\<close>

definition remote9 :: remote where
  "remote9 = remote0\<lparr>
     objects_Get := (\<lambda>h r. if ObjectsGet r \<in> set h
                            then Inr \<lparr>obj_size = 8, obj_generation = Some 7\<rparr>
                            else Inl (HttpError 503)),
     download_GetRange := (\<lambda>h r c s l. if DownloadGetRange r c s l \<in> set h
                            then Inr (take (nat (l + 1 - s)) (drop (nat s) content0))
                            else Inl (HttpError 503))\<rparr>"

definition trace9 :: trace where
  "trace9 =
     [BucketsGet ''b'',
      ObjectsGet \<lparr>get_bucket_name = ''b'', get_object = ''obj'', generation = None\<rparr>,
      ObjectsGet \<lparr>get_bucket_name = ''b'', get_object = ''obj'', generation = None\<rparr>,
      ObjectsGetDownload (d_get_request session0) (d_downloader session0)]"

subsection \<open>Upload sessions, for the examples\<close>

text \<open>
  A service whose bucket lookup fails with an exception that is not an \<^verbatim>\<open>HttpError\<close>, and
  a service whose upload fails.
\<close>

definition remote_lookup_fails :: remote where
  "remote_lookup_fails = remote0\<lparr>buckets_Get := (\<lambda>h b. Inl (OtherError ''connection reset''))\<rparr>"

definition remote_insert_fails :: remote where
  "remote_insert_fails = remote0\<lparr>objects_Insert := (\<lambda>h r c. Some (HttpError 500))\<rparr>"

definition uploader0 :: uploader where
  "uploader0 =
     \<lparr>u_path = ''gs://b/obj'', u_bucket = ''b'', u_name = ''obj'', u_mime_type = ''text/plain'',
      u_insert_request = \<lparr>insert_bucket = ''b'', insert_name = ''obj''\<rparr>,
      u_upload = \<lparr>up_mime_type = ''text/plain'', up_chunksize = WRITE_CHUNK_SIZE, up_resumable = True\<rparr>,
      u_conn_closed = False, u_child_conn_closed = False, u_sent = [],
      u_thread = Running, last_error = None\<rparr>"

section \<open>Properties\<close>

subsection \<open>The bucket cache is written once\<close>

lemma get_project_number_keeps:
  assumes "bucket_to_project_number (fst st) b = Some v"
  shows "bucket_to_project_number (fst (snd (get_project_number R b' st))) b = Some v"
  using assms
  by (auto simp: get_project_number_def Let_def split: prod.splits sum.splits option.splits)

lemma get_project_numbers_keeps:
  "bucket_to_project_number (fst st) b = Some v \<Longrightarrow>
   bucket_to_project_number (fst (get_project_numbers R bs st)) b = Some v"
proof (induction bs arbitrary: st)
  case Nil
  then show ?case by simp
next
  case (Cons b' bs)
  have "bucket_to_project_number (fst (snd (get_project_number R b' st))) b = Some v"
    using Cons.prems by (rule get_project_number_keeps)
  then show ?case using Cons.IH by simp
qed

lemma get_project_number_cached:
  assumes "bucket_to_project_number io b = Some v"
  shows "get_project_number R b (io, h) = (Inr v, io, h)"
  using assms by (auto simp: get_project_number_def Let_def)

lemma get_project_number_failed:
  assumes "bucket_to_project_number io b = None" and "buckets_Get R h b = Inl (HttpError c)"
  shows "get_project_number R b (io, h) = (Inr None, io, h @ [BucketsGet b])"
  using assms by (auto simp: get_project_number_def get_bucket_def Let_def)

lemma get_project_number_unchanged_on_error:
  assumes "bucket_to_project_number io b = None" and "buckets_Get R h b = Inl e"
  shows "fst (snd (get_project_number R b (io, h))) = io
       \<and> snd (snd (get_project_number R b (io, h))) = h @ [BucketsGet b]"
  using assms by (auto simp: get_project_number_def get_bucket_def Let_def)

text \<open>
  Claim C10. An entry of the cache is written at most once. If the cache holds \<open>v\<close> for
  a bucket, then after any run of lookups (of any buckets) it still holds \<open>v\<close> for it, and
  a lookup of that bucket returns \<open>v\<close> and leaves the cache and the trace as they were: no
  call goes to the service. If the bucket has no entry and the service answers the
  metadata request with an HTTP error, the lookup returns \<^verbatim>\<open>None\<close>, leaves the cache as it
  was and the bucket still without an entry, and a second lookup asks the service again:
  the trace grows by one more \<open>BucketsGet\<close>.
\<close>

theorem get_project_number_write_once:
  "(bucket_to_project_number io b = Some v \<longrightarrow>
      bucket_to_project_number (fst (get_project_numbers R bs (io, h))) b = Some v
    \<and> get_project_number R b (get_project_numbers R bs (io, h)) =
        (Inr v, get_project_numbers R bs (io, h)))
 \<and> (bucket_to_project_number io b = None \<and> buckets_Get R h b = Inl (HttpError c) \<longrightarrow>
      get_project_number R b (io, h) = (Inr None, io, h @ [BucketsGet b])
    \<and> snd (snd (get_project_number R b (io, h @ [BucketsGet b]))) =
        h @ [BucketsGet b, BucketsGet b])"
proof (intro conjI impI)
  assume c: "bucket_to_project_number io b = Some v"
  show k: "bucket_to_project_number (fst (get_project_numbers R bs (io, h))) b = Some v"
    using get_project_numbers_keeps [of "(io, h)" b v R bs] c by simp
  obtain io' h' where st: "get_project_numbers R bs (io, h) = (io', h')"
    by (cases "get_project_numbers R bs (io, h)")
  with k have "bucket_to_project_number io' b = Some v" by simp
  then show "get_project_number R b (get_project_numbers R bs (io, h)) =
      (Inr v, get_project_numbers R bs (io, h))"
    unfolding st by (rule get_project_number_cached)
next
  assume a: "bucket_to_project_number io b = None \<and> buckets_Get R h b = Inl (HttpError c)"
  then show "get_project_number R b (io, h) = (Inr None, io, h @ [BucketsGet b])"
    by (simp add: get_project_number_failed)
  from a have "bucket_to_project_number io b = None" by simp
  then show "snd (snd (get_project_number R b (io, h @ [BucketsGet b]))) =
      h @ [BucketsGet b, BucketsGet b]"
    by (auto simp: get_project_number_def get_bucket_def Let_def split: sum.splits)
qed

theorem get_project_number_write_once_witness:
  "bucket_to_project_number
     (fst (snd (get_project_number remote0 ''staging'' (GcsIO_init, [])))) ''staging'' = Some (Some 42)
 \<and> bucket_to_project_number
     (fst (get_project_numbers remote0 [''missing'', ''other'']
        (snd (get_project_number remote0 ''staging'' (GcsIO_init, []))))) ''staging'' = Some (Some 42)
 \<and> bucket_to_project_number GcsIO_init ''missing'' = None
 \<and> buckets_Get remote0 [] ''missing'' = Inl (HttpError 404)
 \<and> get_project_number remote0 ''missing'' (GcsIO_init, []) =
      (Inr None, GcsIO_init, [BucketsGet ''missing''])
 \<and> snd (snd (get_project_number remote0 ''missing'' (GcsIO_init, [BucketsGet ''missing'']))) =
      [BucketsGet ''missing'', BucketsGet ''missing'']"
proof -
  obtain io1 h1 where st: "snd (get_project_number remote0 ''staging'' (GcsIO_init, [])) = (io1, h1)"
    by (cases "snd (get_project_number remote0 ''staging'' (GcsIO_init, []))")
  have c: "bucket_to_project_number io1 ''staging'' = Some (Some 42)"
    using st by (auto simp: get_project_number_def get_bucket_def remote0_def GcsIO_init_def Let_def)
  have n: "bucket_to_project_number GcsIO_init ''missing'' = None
         \<and> buckets_Get remote0 [] ''missing'' = Inl (HttpError 404)"
    by (simp add: GcsIO_init_def remote0_def)
  show ?thesis
    using get_project_number_write_once [where io = io1 and b = "''staging''" and v = "Some 42"
            and R = remote0 and bs = "[''missing'', ''other'']" and h = h1]
          get_project_number_write_once [where io = GcsIO_init and b = "''missing''"
            and R = remote0 and h = "[]" and c = 404]
          c n st
    by simp
qed

subsection \<open>The retry wrapper\<close>

lemma retry_loop_Inr:
  "f s = (Inr v, s') \<Longrightarrow> retry_loop flt n f s = (Inr v, s')"
  by (cases n) auto

lemma retry_loop_permanent:
  "f s = (Inl e, s') \<Longrightarrow> \<not> flt e \<Longrightarrow> retry_loop flt n f s = (Inl e, s')"
  by (cases n) auto

lemma retry_loop_always_fails:
  "(\<And>s. fst (f s) = Inl e) \<Longrightarrow> fst (retry_loop flt n f s) = Inl e"
proof (induction n arbitrary: s)
  case 0
  then show ?case by simp
next
  case (Suc n)
  obtain r s' where fs: "f s = (r, s')" by (cases "f s")
  with Suc.prems [of s] have r: "r = Inl e" by simp
  show ?case using Suc.IH [OF Suc.prems] fs r by simp
qed

lemma delete_requests_ok:
  "\<forall>p\<in>set ps. well_formed p \<Longrightarrow>
   \<exists>rs. delete_requests ps = Inr rs \<and> list_all2 (\<lambda>p r. delete_request_of p = Inr r) ps rs"
proof (induction ps)
  case Nil
  then show ?case by simp
next
  case (Cons p ps)
  from Cons.prems have "well_formed p" by simp
  then obtain r where r: "delete_request_of p = Inr r"
    by (auto simp: well_formed_def delete_request_of_def split: sum.splits)
  from Cons obtain rs where "delete_requests ps = Inr rs"
    "list_all2 (\<lambda>p r. delete_request_of p = Inr r) ps rs" by auto
  with r show ?case by simp
qed

lemma delete_statuses_ok:
  "i + length calls = length chunk \<Longrightarrow>
   delete_statuses chunk i calls = Inr (map2 (\<lambda>p c. (p, delete_status c)) (drop i chunk) calls)"
proof (induction calls arbitrary: i)
  case Nil
  then show ?case by simp
next
  case (Cons c calls)
  then have i: "i < length chunk" by simp
  have "drop i chunk = chunk ! i # drop (Suc i) chunk"
    using i by (simp add: Cons_nth_drop_Suc)
  then show ?case using Cons i by simp
qed


lemma rounds_step:
  fixes n :: nat
  assumes "0 < n"
  shows "Suc ((n - 100 + 99) div 100) = (n + 99) div 100"
proof (cases "n < 100")
  case True
  then have "n - 100 = 0" by simp
  moreover have "(n + 99) div 100 = 1"
    using assms True by (intro div_nat_eqI) simp_all
  ultimately show ?thesis by simp
next
  case False
  then obtain m where m: "n = m + 100" by (metis le_add_diff_inverse2 not_less)
  have "(m + 100 + 99) div 100 = Suc ((m + 99) div 100)"
    by (simp add: add.commute add.left_commute)
  with m show ?thesis by simp
qed

lemma delete_batch_loop_rel:
  assumes contract: "\<And>h reqs. \<exists>calls. batch_Delete R h reqs = Inr calls \<and> list_all2 Q reqs calls"
      and wf: "\<forall>p\<in>set paths. well_formed p"
  shows "\<exists>st bs. delete_batch_loop R paths acc h = (Inr (acc @ st), h @ map BatchDelete bs)
           \<and> list_all2 (\<lambda>p x. fst x = p \<and>
                (\<exists>r c. delete_request_of p = Inr r \<and> Q r c \<and> snd x = delete_status c)) paths st
           \<and> list_all2 (\<lambda>p r. delete_request_of p = Inr r) paths (concat bs)
           \<and> (\<forall>b\<in>set bs. b \<noteq> [] \<and> length b \<le> MAX_BATCH_OPERATION_SIZE)
           \<and> length bs = (length paths + 99) div 100"
  using assms
proof (induction R paths acc h rule: delete_batch_loop.induct)
  case (1 R paths acc h)
  let ?chunk = "take MAX_BATCH_OPERATION_SIZE paths"
  let ?P = "\<lambda>p x. fst x = p \<and>
                (\<exists>r c. delete_request_of p = Inr r \<and> Q r c \<and> snd x = delete_status c)"
  show ?case
  proof (cases "?chunk = []")
    case True
    then have "paths = []" by (simp add: MAX_BATCH_OPERATION_SIZE_def)
    then have "delete_batch_loop R paths acc h = (Inr (acc @ []), h @ map BatchDelete [])"
      by (simp add: delete_batch_loop.simps [of R "[]"])
    with \<open>paths = []\<close> show ?thesis by (intro exI [of _ "[]"]) simp
  next
    case False
    have "\<forall>p\<in>set ?chunk. well_formed p" using "1.prems"(2) by (auto dest: in_set_takeD)
    then obtain rs where rs: "delete_requests ?chunk = Inr rs"
      and rel: "list_all2 (\<lambda>p r. delete_request_of p = Inr r) ?chunk rs"
      using delete_requests_ok by blast
    obtain calls where calls: "batch_Delete R h rs = Inr calls" and q: "list_all2 Q rs calls"
      using "1.prems"(1) by blast
    have len: "length calls = length ?chunk"
      using list_all2_lengthD [OF rel] list_all2_lengthD [OF q] by simp
    have sts: "delete_statuses ?chunk 0 calls = Inr (map2 (\<lambda>p c. (p, delete_status c)) ?chunk calls)"
      using delete_statuses_ok [of 0 calls ?chunk] len by simp
    let ?st = "map2 (\<lambda>p c. (p, delete_status c)) ?chunk calls"
    have "\<forall>p\<in>set (drop MAX_BATCH_OPERATION_SIZE paths). well_formed p"
      using "1.prems"(2) by (auto dest: in_set_dropD)
    from "1.IH" [OF False rs calls sts "1.prems"(1) this]
    obtain st bs where
      run: "delete_batch_loop R (drop MAX_BATCH_OPERATION_SIZE paths) (acc @ ?st) (h @ [BatchDelete rs])
              = (Inr ((acc @ ?st) @ st), (h @ [BatchDelete rs]) @ map BatchDelete bs)"
      and st: "list_all2 ?P (drop MAX_BATCH_OPERATION_SIZE paths) st"
      and bs: "list_all2 (\<lambda>p r. delete_request_of p = Inr r) (drop MAX_BATCH_OPERATION_SIZE paths) (concat bs)"
      and sz: "\<forall>b\<in>set bs. b \<noteq> [] \<and> length b \<le> MAX_BATCH_OPERATION_SIZE"
      and nb: "length bs = (length (drop MAX_BATCH_OPERATION_SIZE paths) + 99) div 100"
      by blast
    have "paths \<noteq> []" using False by auto
    then have "0 < length paths" by simp
    then have "Suc ((length paths - 100 + 99) div 100) = (length paths + 99) div 100"
      by (rule rounds_step)
    moreover have "length (drop MAX_BATCH_OPERATION_SIZE paths) = length paths - 100"
      by (simp only: length_drop MAX_BATCH_OPERATION_SIZE_def)
    ultimately have rounds: "length (rs # bs) = (length paths + 99) div 100"
      using nb by simp
    have eq: "delete_batch_loop R paths acc h = (Inr (acc @ (?st @ st)), h @ map BatchDelete (rs # bs))"
      using False rs calls sts run by (subst delete_batch_loop.simps) simp
    have chunk_rel: "list_all2 ?P ?chunk ?st"
    proof (rule list_all2_all_nthI)
      show "length ?chunk = length ?st" using len by simp
    next
      fix n assume n: "n < length ?chunk"
      then have nr: "n < length rs" and nc: "n < length calls"
        using list_all2_lengthD [OF rel] len by auto
      have a: "delete_request_of (?chunk ! n) = Inr (rs ! n)"
        by (rule list_all2_nthD [OF rel n])
      have b: "Q (rs ! n) (calls ! n)" by (rule list_all2_nthD [OF q nr])
      have "?st ! n = (?chunk ! n, delete_status (calls ! n))" using n nc by simp
      with a b show "?P (?chunk ! n) (?st ! n)" by auto
    qed
    have all: "list_all2 ?P (?chunk @ drop MAX_BATCH_OPERATION_SIZE paths) (?st @ st)"
      using chunk_rel st by (rule list_all2_appendI)
    have reqs: "list_all2 (\<lambda>p r. delete_request_of p = Inr r)
                  (?chunk @ drop MAX_BATCH_OPERATION_SIZE paths) (rs @ concat bs)"
      using rel bs by (rule list_all2_appendI)
    have "length rs = length ?chunk" using list_all2_lengthD [OF rel] by simp
    moreover have "0 < length ?chunk" using False by blast
    moreover have "length ?chunk \<le> MAX_BATCH_OPERATION_SIZE" by simp
    ultimately have rsz: "rs \<noteq> [] \<and> length rs \<le> MAX_BATCH_OPERATION_SIZE"
      by (metis length_greater_0_conv)
    show ?thesis
      using eq all reqs rsz sz rounds
      by (intro exI [of _ "?st @ st"] exI [of _ "rs # bs"]) simp
  qed
qed

lemma map2_zip_snd:
  assumes "length rs = length cs" and "length ps = length cs"
  shows "map2 (\<lambda>p x. (p, f (snd x))) ps (zip rs cs) = map2 (\<lambda>p c. (p, f c)) ps cs"
  using assms by (intro nth_equalityI) simp_all

lemma map2_append:
  "length xs = length as \<Longrightarrow> map2 f (xs @ ys) (as @ bs) = map2 f xs as @ map2 f ys bs"
  by simp

lemma delete_batch_loop_exact:
  assumes contract: "\<And>h reqs. \<exists>calls. batch_Delete R h reqs = Inr calls \<and> length calls = length reqs"
      and wf: "\<forall>p\<in>set paths. well_formed p"
  shows "\<exists>bs. delete_batch_loop R paths acc h =
               (Inr (acc @ map2 (\<lambda>p x. (p, delete_status (snd x))) paths (delete_exchanges R h bs)),
                h @ map BatchDelete bs)
           \<and> list_all2 (\<lambda>p r. delete_request_of p = Inr r) paths (concat bs)
           \<and> map fst (delete_exchanges R h bs) = concat bs"
  using assms
proof (induction R paths acc h rule: delete_batch_loop.induct)
  case (1 R paths acc h)
  let ?chunk = "take MAX_BATCH_OPERATION_SIZE paths"
  let ?rest = "drop MAX_BATCH_OPERATION_SIZE paths"
  let ?f = "\<lambda>p x. (p, delete_status (snd x))"
  show ?case
  proof (cases "?chunk = []")
    case True
    then have "paths = []" by (simp add: MAX_BATCH_OPERATION_SIZE_def)
    then have "delete_batch_loop R paths acc h = (Inr (acc @ []), h @ map BatchDelete [])"
      by (simp add: delete_batch_loop.simps [of R "[]"])
    with \<open>paths = []\<close> show ?thesis by (intro exI [of _ "[]"]) simp
  next
    case False
    have "\<forall>p\<in>set ?chunk. well_formed p" using "1.prems"(2) by (auto dest: in_set_takeD)
    then obtain rs where rs: "delete_requests ?chunk = Inr rs"
      and rel: "list_all2 (\<lambda>p r. delete_request_of p = Inr r) ?chunk rs"
      using delete_requests_ok by blast
    obtain calls where calls: "batch_Delete R h rs = Inr calls" and lc: "length calls = length rs"
      using "1.prems"(1) by blast
    have lr: "length rs = length ?chunk" using list_all2_lengthD [OF rel] by simp
    have len: "length calls = length ?chunk" using lc lr by simp
    have sts: "delete_statuses ?chunk 0 calls = Inr (map2 (\<lambda>p c. (p, delete_status c)) ?chunk calls)"
      using delete_statuses_ok [of 0 calls ?chunk] len by simp
    let ?st = "map2 (\<lambda>p c. (p, delete_status c)) ?chunk calls"
    have "\<forall>p\<in>set ?rest. well_formed p"
      using "1.prems"(2) by (auto dest: in_set_dropD)
    from "1.IH" [OF False rs calls sts "1.prems"(1) this]
    obtain bs where
      run: "delete_batch_loop R ?rest (acc @ ?st) (h @ [BatchDelete rs])
              = (Inr ((acc @ ?st) @ map2 ?f ?rest (delete_exchanges R (h @ [BatchDelete rs]) bs)),
                 (h @ [BatchDelete rs]) @ map BatchDelete bs)"
      and reqs: "list_all2 (\<lambda>p r. delete_request_of p = Inr r) ?rest (concat bs)"
      and ex: "map fst (delete_exchanges R (h @ [BatchDelete rs]) bs) = concat bs"
      by blast
    let ?E = "delete_exchanges R (h @ [BatchDelete rs]) bs"
    have E: "delete_exchanges R h (rs # bs) = zip rs calls @ ?E"
      using calls by simp
    have first: "map2 ?f ?chunk (zip rs calls) = ?st"
      using lc [symmetric] len by (intro map2_zip_snd) simp_all
    have lz: "length ?chunk = length (zip rs calls)" using lc lr by simp
    have a: "map2 ?f (?chunk @ ?rest) (zip rs calls @ ?E)
               = map2 ?f ?chunk (zip rs calls) @ map2 ?f ?rest ?E"
      by (rule map2_append [OF lz])
    have whole: "map2 ?f paths (delete_exchanges R h (rs # bs)) = ?st @ map2 ?f ?rest ?E"
      by (simp only: a [unfolded append_take_drop_id] E first)
    have eq: "delete_batch_loop R paths acc h =
        (Inr (acc @ map2 ?f paths (delete_exchanges R h (rs # bs))), h @ map BatchDelete (rs # bs))"
      unfolding whole using False rs calls sts run by (subst delete_batch_loop.simps) simp
    have all: "list_all2 (\<lambda>p r. delete_request_of p = Inr r) (?chunk @ ?rest) (rs @ concat bs)"
      using rel reqs by (rule list_all2_appendI)
    have fs: "map fst (delete_exchanges R h (rs # bs)) = concat (rs # bs)"
      unfolding E using ex lc by simp
    show ?thesis
      using eq all fs by (intro exI [of _ "rs # bs"]) simp
  qed
qed


lemma BatchDelete_map_inj: "map BatchDelete bs = map BatchDelete bs' \<Longrightarrow> bs = bs'"
  by (simp add: inj_def inj_map_eq_map)

subsection \<open>delete_batch: one status per path, in order\<close>

text \<open>
  Claim C4. Let every path of the list have the form \<^verbatim>\<open>gs://<bucket>/<object>\<close> and
  let the batch layer return one call per sub-request. Then \<^verbatim>\<open>delete_batch\<close> returns, for a
  list of any length, one pair per input path, in the input order. The first component
  of the pair of a path is the path. The second is the outcome of the call that the
  batch layer returned for the request of that path, at the same position of the same
  batch: \<^verbatim>\<open>None\<close> when the call is no error or its exception is an \<^verbatim>\<open>HttpError\<close> with
  status 404, and the exception of the call otherwise. The calls \<^verbatim>\<open>delete_batch\<close> makes
  are batches that hold, one after the other, the requests of the paths in order; no
  batch is empty or longer than \<open>MAX_BATCH_OPERATION_SIZE\<close>, and a list of \<open>n\<close> paths
  takes \<open>\<lceil>n / 100\<rceil>\<close> batches.
\<close>

theorem delete_batch_one_status_per_path:
  assumes wf: "\<forall>p\<in>set paths. well_formed p"
      and contract: "\<And>h reqs. \<exists>calls. batch_Delete R h reqs = Inr calls \<and> length calls = length reqs"
  shows "\<exists>st bs. delete_batch R paths h = (Inr st, h @ map BatchDelete bs)
           \<and> map fst st = paths
           \<and> list_all2 (\<lambda>p r. delete_request_of p = Inr r) paths (concat bs)
           \<and> (\<forall>b\<in>set bs. b \<noteq> [] \<and> length b \<le> MAX_BATCH_OPERATION_SIZE)
           \<and> length bs = (length paths + 99) div 100
           \<and> map fst (delete_exchanges R h bs) = concat bs
           \<and> st = map2 (\<lambda>p x. (p, if is_error (snd x)
                                    then (case exception (snd x) of
                                            None \<Rightarrow> None
                                          | Some e \<Rightarrow> if status_code e = Some 404 then None else Some e)
                                    else None))
                     paths (delete_exchanges R h bs)"
proof (cases "paths = []")
  case True
  then have "delete_batch R paths h = (Inr [], h @ map BatchDelete [])"
    by (simp add: delete_batch_def)
  with True show ?thesis by (intro exI [of _ "[]"]) simp
next
  case False
  let ?out = "\<lambda>p x. (p, if is_error (snd x)
                          then (case exception (snd x) of
                                  None \<Rightarrow> None
                                | Some e \<Rightarrow> if status_code e = Some 404 then None else Some e)
                          else None)"
  have c: "\<And>h reqs. \<exists>calls. batch_Delete R h reqs = Inr calls \<and> list_all2 (\<lambda>r c. True) reqs calls"
    using contract by (metis (no_types) list_all2_conv_all_nth)
  from delete_batch_loop_rel [of R "\<lambda>r c. True" paths "[]" h, OF c wf]
  obtain st bs where run: "delete_batch_loop R paths [] h = (Inr st, h @ map BatchDelete bs)"
    and bs: "list_all2 (\<lambda>p r. delete_request_of p = Inr r) paths (concat bs)"
    and sz: "\<forall>b\<in>set bs. b \<noteq> [] \<and> length b \<le> MAX_BATCH_OPERATION_SIZE"
    and nb: "length bs = (length paths + 99) div 100"
    by auto
  from delete_batch_loop_exact [OF contract wf, of "[]" h]
  obtain bs' where run': "delete_batch_loop R paths [] h =
        (Inr ([] @ map2 (\<lambda>p x. (p, delete_status (snd x))) paths (delete_exchanges R h bs')),
         h @ map BatchDelete bs')"
    and ex': "map fst (delete_exchanges R h bs') = concat bs'"
    by blast
  from run run' have same: "bs' = bs" by (simp add: BatchDelete_map_inj)
  have st: "st = map2 (\<lambda>p x. (p, delete_status (snd x))) paths (delete_exchanges R h bs)"
    using run run' same by simp
  have out: "(\<lambda>p x. (p, delete_status (snd x))) = ?out"
    by (intro ext) (simp add: delete_status_def)
  have st': "st = map2 ?out paths (delete_exchanges R h bs)"
    using st unfolding out .
  have le: "length (delete_exchanges R h bs) = length paths"
    using ex' same list_all2_lengthD [OF bs] by (metis length_map)
  have fs: "map fst st = paths"
    unfolding st using le by (intro nth_equalityI) simp_all
  have d: "delete_batch R paths h = (Inr st, h @ map BatchDelete bs)"
    unfolding delete_batch_def using False run by (simp only: if_False)
  have ex: "map fst (delete_exchanges R h bs) = concat bs" using ex' same by simp
  show ?thesis
    using d fs bs sz nb ex st' by blast
qed

lemma well_formed_examples:
  "well_formed ''gs://b/ok''" "well_formed ''gs://b/gone''" "well_formed ''gs://b/locked''"
  by (simp_all add: well_formed_def parse_gcs_path_def gcs_path_match_def)

lemma batch_Delete_remote0:
  "\<exists>calls. batch_Delete remote0 h reqs = Inr calls \<and> length calls = length reqs"
  by (simp add: remote0_def)

theorem delete_batch_one_status_per_path_witness:
  "list_all well_formed paths0
 \<and> length paths0 = 102
 \<and> fst (delete_batch remote0 paths0 []) =
      Inr ((''gs://b/locked'', Some (HttpError 403)) # replicate 100 (''gs://b/ok'', None)
           @ [(''gs://b/gone'', None)])
 \<and> length (snd (delete_batch remote0 paths0 [])) = 2"
proof -
  have wf: "\<forall>p\<in>set paths0. well_formed p"
    by (auto simp: paths0_def well_formed_examples)
  from delete_batch_one_status_per_path [OF wf batch_Delete_remote0, of "[]"]
  obtain st bs where run: "delete_batch remote0 paths0 [] = (Inr st, [] @ map BatchDelete bs)"
    and fs: "map fst st = paths0" and nb: "length bs = (length paths0 + 99) div 100"
    by blast
  have len: "length paths0 = 102" by (simp add: paths0_def)
  have ev: "delete_batch remote0 paths0 [] =
     (Inr ((''gs://b/locked'', Some (HttpError 403)) # replicate 100 (''gs://b/ok'', None)
           @ [(''gs://b/gone'', None)]),
      [BatchDelete (\<lparr>delete_bucket = ''b'', delete_object = ''locked''\<rparr>
                    # replicate 99 \<lparr>delete_bucket = ''b'', delete_object = ''ok''\<rparr>),
       BatchDelete [\<lparr>delete_bucket = ''b'', delete_object = ''ok''\<rparr>,
                    \<lparr>delete_bucket = ''b'', delete_object = ''gone''\<rparr>]])"
    unfolding paths0_def by code_simp
  have n2: "length (snd (delete_batch remote0 paths0 [])) = 2"
    using run nb len by simp
  have "list_all well_formed paths0" using wf by (simp only: list_all_iff)
  moreover have "fst (delete_batch remote0 paths0 []) =
      Inr ((''gs://b/locked'', Some (HttpError 403)) # replicate 100 (''gs://b/ok'', None)
           @ [(''gs://b/gone'', None)])"
    by (simp only: ev fst_conv)
  ultimately show ?thesis using len n2 by blast
qed

subsection \<open>delete and delete_batch: not found is success\<close>

lemma delete_body_reply:
  assumes "parse_gcs_path path False = Inr (b, obj)"
  shows "delete_body R path h =
     (case objects_Delete R h \<lparr>delete_bucket = b, delete_object = obj\<rparr> of
        None \<Rightarrow> Inr ()
      | Some e \<Rightarrow> if status_code e = Some 404 then Inr () else Inl e,
      h @ [ObjectsDelete \<lparr>delete_bucket = b, delete_object = obj\<rparr>])"
  using assms by (simp add: delete_body_def Let_def split: option.splits)

text \<open>
  Claim C8. \<^verbatim>\<open>delete\<close>: when the service answers the delete request with status 404, the
  call returns normally after that one request. Any other exception \<open>e\<close> of the request
  leaves the body of \<^verbatim>\<open>delete\<close> as \<open>e\<close>; the decorated method raises it at once when the
  retry filter does not accept \<open>e\<close>, and raises it, whatever the policy, when the service
  answers that request with \<open>e\<close> every time (an error the filter accepts is first tried
  again). \<^verbatim>\<open>delete_batch\<close>, for well-formed paths and a batch layer that returns one call
  per sub-request: a path whose sub-request comes back as an error with exception \<open>x\<close> gets
  the status \<^verbatim>\<open>None\<close> when \<open>x\<close> is an \<^verbatim>\<open>HttpError\<close> with status 404, and \<open>x\<close> itself
  otherwise.
\<close>

theorem delete_not_found_is_success:
  "(parse_gcs_path path False = Inr (b, obj)
      \<and> objects_Delete R h \<lparr>delete_bucket = b, delete_object = obj\<rparr> = Some (HttpError 404)
    \<longrightarrow> delete R pol path h = (Inr (), h @ [ObjectsDelete \<lparr>delete_bucket = b, delete_object = obj\<rparr>]))
 \<and> (parse_gcs_path path False = Inr (b, obj)
      \<and> objects_Delete R h \<lparr>delete_bucket = b, delete_object = obj\<rparr> = Some e
      \<and> status_code e \<noteq> Some 404
    \<longrightarrow> delete_body R path h = (Inl e, h @ [ObjectsDelete \<lparr>delete_bucket = b, delete_object = obj\<rparr>])
      \<and> (\<not> retry_filter pol e \<longrightarrow>
           delete R pol path h = (Inl e, h @ [ObjectsDelete \<lparr>delete_bucket = b, delete_object = obj\<rparr>])))
 \<and> (parse_gcs_path path False = Inr (b, obj)
      \<and> (\<forall>h'. objects_Delete R h' \<lparr>delete_bucket = b, delete_object = obj\<rparr> = Some e)
      \<and> status_code e \<noteq> Some 404
    \<longrightarrow> fst (delete R pol path h) = Inl e)
 \<and> ((\<forall>p\<in>set paths. well_formed p)
      \<and> (\<forall>h reqs. \<exists>calls. batch_Delete R h reqs = Inr calls \<and> length calls = length reqs
            \<and> (\<forall>j<length reqs. reqs ! j = req \<longrightarrow>
                  is_error (calls ! j) \<and> exception (calls ! j) = Some x))
    \<longrightarrow> (\<exists>st. fst (delete_batch R paths h) = Inr st \<and> map fst st = paths
          \<and> (\<forall>i<length paths. delete_request_of (paths ! i) = Inr req \<longrightarrow>
                snd (st ! i) = (if status_code x = Some 404 then None else Some x))))"
proof (intro conjI impI)
  assume a: "parse_gcs_path path False = Inr (b, obj)
      \<and> objects_Delete R h \<lparr>delete_bucket = b, delete_object = obj\<rparr> = Some (HttpError 404)"
  then have "delete_body R path h = (Inr (), h @ [ObjectsDelete \<lparr>delete_bucket = b, delete_object = obj\<rparr>])"
    by (simp add: delete_body_reply)
  then show "delete R pol path h = (Inr (), h @ [ObjectsDelete \<lparr>delete_bucket = b, delete_object = obj\<rparr>])"
    unfolding delete_def with_exponential_backoff_def by (rule retry_loop_Inr)
next
  assume a: "parse_gcs_path path False = Inr (b, obj)
      \<and> objects_Delete R h \<lparr>delete_bucket = b, delete_object = obj\<rparr> = Some e
      \<and> status_code e \<noteq> Some 404"
  then show body: "delete_body R path h = (Inl e, h @ [ObjectsDelete \<lparr>delete_bucket = b, delete_object = obj\<rparr>])"
    by (simp add: delete_body_reply)
  assume "\<not> retry_filter pol e"
  with body show "delete R pol path h = (Inl e, h @ [ObjectsDelete \<lparr>delete_bucket = b, delete_object = obj\<rparr>])"
    unfolding delete_def with_exponential_backoff_def by (rule retry_loop_permanent)
next
  assume a: "parse_gcs_path path False = Inr (b, obj)
      \<and> (\<forall>h'. objects_Delete R h' \<lparr>delete_bucket = b, delete_object = obj\<rparr> = Some e)
      \<and> status_code e \<noteq> Some 404"
  then have "\<And>s. fst (delete_body R path s) = Inl e"
    by (simp add: delete_body_reply)
  then show "fst (delete R pol path h) = Inl e"
    unfolding delete_def with_exponential_backoff_def by (rule retry_loop_always_fails)
next
  let ?Q = "\<lambda>r c. r = req \<longrightarrow> is_error c \<and> exception c = Some x"
  assume a: "(\<forall>p\<in>set paths. well_formed p)
      \<and> (\<forall>h reqs. \<exists>calls. batch_Delete R h reqs = Inr calls \<and> length calls = length reqs
            \<and> (\<forall>j<length reqs. reqs ! j = req \<longrightarrow>
                  is_error (calls ! j) \<and> exception (calls ! j) = Some x))"
  then have wf: "\<forall>p\<in>set paths. well_formed p" by blast
  have c: "\<exists>calls. batch_Delete R h reqs = Inr calls \<and> list_all2 ?Q reqs calls" for h reqs
  proof -
    from a obtain calls where "batch_Delete R h reqs = Inr calls" "length calls = length reqs"
      "\<forall>j<length reqs. reqs ! j = req \<longrightarrow> is_error (calls ! j) \<and> exception (calls ! j) = Some x"
      by blast
    then show ?thesis by (auto simp: list_all2_conv_all_nth)
  qed
  show "\<exists>st. fst (delete_batch R paths h) = Inr st \<and> map fst st = paths
          \<and> (\<forall>i<length paths. delete_request_of (paths ! i) = Inr req \<longrightarrow>
                snd (st ! i) = (if status_code x = Some 404 then None else Some x))"
  proof (cases "paths = []")
    case True
    then show ?thesis by (simp add: delete_batch_def)
  next
    case False
    from delete_batch_loop_rel [of R ?Q paths "[]" h, OF c wf]
    obtain st bs where run: "delete_batch_loop R paths [] h = (Inr st, h @ map BatchDelete bs)"
      and st: "list_all2 (\<lambda>p y. fst y = p \<and>
                (\<exists>r c. delete_request_of p = Inr r \<and> ?Q r c \<and> snd y = delete_status c)) paths st"
      by auto
    have "list_all2 (\<lambda>p y. fst y = p) paths st"
      using st by (rule list_all2_mono) simp
    then have m: "map fst st = paths"
      by (induction rule: list_all2_induct) simp_all
    have r: "fst (delete_batch R paths h) = Inr st"
      unfolding delete_batch_def using False run by (simp only: if_False fst_conv)
    have "snd (st ! i) = (if status_code x = Some 404 then None else Some x)"
      if i: "i < length paths" and q: "delete_request_of (paths ! i) = Inr req" for i
    proof -
      from list_all2_nthD [OF st i] q obtain c where "?Q req c" "snd (st ! i) = delete_status c"
        by auto
      then show ?thesis using q by (simp add: delete_status_def)
    qed
    with m r show ?thesis by blast
  qed
qed

theorem delete_not_found_is_success_witness:
  "parse_gcs_path ''gs://b/gone'' False = Inr (''b'', ''gone'')
 \<and> objects_Delete remote0 [] \<lparr>delete_bucket = ''b'', delete_object = ''gone''\<rparr> = Some (HttpError 404)
 \<and> delete remote0 policy0 ''gs://b/gone'' [] =
      (Inr (), [ObjectsDelete \<lparr>delete_bucket = ''b'', delete_object = ''gone''\<rparr>])
 \<and> parse_gcs_path ''gs://b/locked'' False = Inr (''b'', ''locked'')
 \<and> objects_Delete remote0 [] \<lparr>delete_bucket = ''b'', delete_object = ''locked''\<rparr> = Some (HttpError 403)
 \<and> delete remote0 policy0 ''gs://b/locked'' [] =
      (Inl (HttpError 403), [ObjectsDelete \<lparr>delete_bucket = ''b'', delete_object = ''locked''\<rparr>])
 \<and> fst (delete remote0 \<lparr>num_retries = 2, retry_filter = (\<lambda>e. True)\<rparr> ''gs://b/locked'' []) =
      Inl (HttpError 403)
 \<and> fst (delete_batch remote0 [''gs://b/gone'', ''gs://b/ok'', ''gs://b/locked''] []) =
      Inr [(''gs://b/gone'', None), (''gs://b/ok'', None), (''gs://b/locked'', Some (HttpError 403))]"
proof -
  let ?gone = "\<lparr>delete_bucket = ''b'', delete_object = ''gone''\<rparr>"
  let ?locked = "\<lparr>delete_bucket = ''b'', delete_object = ''locked''\<rparr>"
  let ?paths = "[''gs://b/gone'', ''gs://b/ok'', ''gs://b/locked'']"
  have p1: "parse_gcs_path ''gs://b/gone'' False = Inr (''b'', ''gone'')"
    by (simp add: parse_gcs_path_def gcs_path_match_def)
  have p2: "parse_gcs_path ''gs://b/locked'' False = Inr (''b'', ''locked'')"
    by (simp add: parse_gcs_path_def gcs_path_match_def)
  have d1: "objects_Delete remote0 [] ?gone = Some (HttpError 404)"
    by (simp add: remote0_def)
  have d2: "\<forall>h'. objects_Delete remote0 h' ?locked = Some (HttpError 403)"
    by (simp add: remote0_def)
  have f2: "\<not> retry_filter policy0 (HttpError 403)"
    by (simp add: policy0_def)
  have wf: "\<forall>p\<in>set ?paths. well_formed p"
    by (simp add: well_formed_examples)
  have b1: "\<forall>h reqs. \<exists>calls. batch_Delete remote0 h reqs = Inr calls \<and> length calls = length reqs
            \<and> (\<forall>j<length reqs. reqs ! j = ?gone \<longrightarrow>
                  is_error (calls ! j) \<and> exception (calls ! j) = Some (HttpError 404))"
    by (simp add: remote0_def delete_call0_def)
  note gone = delete_not_found_is_success [where path = "''gs://b/gone''" and b = "''b''"
      and obj = "''gone''" and R = remote0 and h = "[]" and pol = policy0 and paths = ?paths
      and req = ?gone and x = "HttpError 404"]
  note locked = delete_not_found_is_success [where path = "''gs://b/locked''" and b = "''b''"
      and obj = "''locked''" and R = remote0 and h = "[]" and pol = policy0
      and e = "HttpError 403"]
  note always = delete_not_found_is_success [where path = "''gs://b/locked''" and b = "''b''"
      and obj = "''locked''" and R = remote0 and h = "[]"
      and pol = "\<lparr>num_retries = 2, retry_filter = (\<lambda>e. True)\<rparr>" and e = "HttpError 403"]
  have r1: "delete remote0 policy0 ''gs://b/gone'' [] = (Inr (), [ObjectsDelete ?gone])"
    using gone p1 d1 by simp
  have r2: "delete remote0 policy0 ''gs://b/locked'' [] = (Inl (HttpError 403), [ObjectsDelete ?locked])"
    using locked p2 d2 f2 by simp
  have r3: "fst (delete remote0 \<lparr>num_retries = 2, retry_filter = (\<lambda>e. True)\<rparr> ''gs://b/locked'' [])
            = Inl (HttpError 403)"
    using always p2 d2 by simp
  from gone wf b1 obtain st where st: "fst (delete_batch remote0 ?paths []) = Inr st"
    and "\<forall>i<length ?paths. delete_request_of (?paths ! i) = Inr ?gone \<longrightarrow>
           snd (st ! i) = (if status_code (HttpError 404) = Some 404 then None else Some (HttpError 404))"
    by blast
  have ev: "fst (delete_batch remote0 ?paths []) =
      Inr [(''gs://b/gone'', None), (''gs://b/ok'', None), (''gs://b/locked'', Some (HttpError 403))]"
    by code_simp
  from p1 d1 r1 p2 d2 r2 r3 ev show ?thesis by simp
qed

subsection \<open>copy: one request per response\<close>

lemma retry_loop_opt_Inr:
  "f s = Some (Inr v, s') \<Longrightarrow> retry_loop_opt flt n f s = Some (Inr v, s')"
  by (cases n) auto

lemma copy_loop_script:
  assumes "\<forall>k<length rest. \<forall>req calls. length calls = k \<longrightarrow>
             objects_Rewrite R (h @ calls) req = Inr (rest ! k)"
      and "\<forall>r\<in>set (butlast (r0 # rest)). \<not> rw_done r"
      and "rw_done (last (r0 # rest))"
  shows "copy_loop R request r0 (io, h) =
     Some (Inr (), fold (\<lambda>r io. call_rewrite_cb io (Some r)) rest io,
           h @ map (\<lambda>r. ObjectsRewrite (request\<lparr>rewriteToken := rw_rewriteToken r\<rparr>))
                 (butlast (r0 # rest)))"
  using assms
proof (induction rest arbitrary: request r0 io h)
  case Nil
  then show ?case by (subst copy_loop.simps) simp
next
  case (Cons r1 rest)
  let ?req = "request\<lparr>rewriteToken := rw_rewriteToken r0\<rparr>"
  have nd: "\<not> rw_done r0" using Cons.prems(2) by simp
  have first: "objects_Rewrite R h ?req = Inr r1"
    using Cons.prems(1) [rule_format, of 0 "[]" ?req] by simp
  have shift: "\<forall>k<length rest. \<forall>req calls. length calls = k \<longrightarrow>
             objects_Rewrite R ((h @ [ObjectsRewrite ?req]) @ calls) req = Inr (rest ! k)"
  proof (intro allI impI)
    fix k req and calls :: trace assume k: "k < length rest" and l: "length calls = k"
    have "objects_Rewrite R (h @ (ObjectsRewrite ?req # calls)) req = Inr ((r1 # rest) ! Suc k)"
      using Cons.prems(1) [rule_format, of "Suc k" "ObjectsRewrite ?req # calls" req] k l by simp
    then show "objects_Rewrite R ((h @ [ObjectsRewrite ?req]) @ calls) req = Inr (rest ! k)"
      by simp
  qed
  have nd': "\<forall>r\<in>set (butlast (r1 # rest)). \<not> rw_done r"
    using Cons.prems(2) by simp
  have dn: "rw_done (last (r1 # rest))" using Cons.prems(3) by simp
  note IH = Cons.IH [OF shift nd' dn, of ?req "call_rewrite_cb io (Some r1)"]
  show ?case
    using nd first IH by (subst copy_loop.simps) simp
qed


lemma rewrite_request_of_token:
  "rewrite_request_of src dest kms mb = Inr request \<Longrightarrow> rewriteToken request = None"
  by (auto simp: rewrite_request_of_def split: sum.splits prod.splits)

text \<open>
  Claim C3. Let the paths be well formed and let the service answer the rewrite requests
  of the call, in order, with the responses \<open>rs\<close>, of which the last and only the last
  is done. Then \<^verbatim>\<open>copy\<close> returns normally after exactly \<open>length rs\<close> requests: the first
  is the request built from the arguments, with no token, and request \<open>i + 1\<close> is the same
  request with the token of response \<open>i\<close>. Nothing is sent after the response that is
  done. The test hook, when set, receives every response but the first.
\<close>

theorem copy_one_request_per_response:
  assumes req: "rewrite_request_of src dest kms mb = Inr request"
      and ne: "rs \<noteq> []"
      and nd: "\<forall>r\<in>set (butlast rs). \<not> rw_done r"
      and dn: "rw_done (last rs)"
      and script: "\<forall>k<length rs. \<forall>req calls. length calls = k \<longrightarrow>
                     objects_Rewrite R (h @ calls) req = Inr (rs ! k)"
  shows "copy R pol src dest kms mb (io, h) =
           Some (Inr (), fold (\<lambda>r io. call_rewrite_cb io (Some r)) (tl rs) io,
                 h @ map ObjectsRewrite
                       (request # map (\<lambda>r. request\<lparr>rewriteToken := rw_rewriteToken r\<rparr>) (butlast rs)))
       \<and> length (request # map (\<lambda>r. request\<lparr>rewriteToken := rw_rewriteToken r\<rparr>) (butlast rs))
           = length rs
       \<and> rewriteToken request = None
       \<and> (\<forall>i. Suc i < length rs \<longrightarrow>
            rewriteToken ((request # map (\<lambda>r. request\<lparr>rewriteToken := rw_rewriteToken r\<rparr>)
                             (butlast rs)) ! Suc i) = rw_rewriteToken (rs ! i))"
proof (intro conjI allI impI)
  from ne obtain r0 rest where rs: "rs = r0 # rest" by (cases rs) auto
  have first: "objects_Rewrite R h request = Inr r0"
    using script [rule_format, of 0 "[]" request] rs by simp
  have shift: "\<forall>k<length rest. \<forall>req calls. length calls = k \<longrightarrow>
             objects_Rewrite R ((h @ [ObjectsRewrite request]) @ calls) req = Inr (rest ! k)"
  proof (intro allI impI)
    fix k req and calls :: trace assume k: "k < length rest" and l: "length calls = k"
    have "objects_Rewrite R (h @ (ObjectsRewrite request # calls)) req = Inr (rs ! Suc k)"
      using script [rule_format, of "Suc k" "ObjectsRewrite request # calls" req] k l rs by simp
    then show "objects_Rewrite R ((h @ [ObjectsRewrite request]) @ calls) req = Inr (rest ! k)"
      using rs by simp
  qed
  have loop: "copy_loop R request r0 (io, h @ [ObjectsRewrite request]) =
     Some (Inr (), fold (\<lambda>r io. call_rewrite_cb io (Some r)) rest io,
           (h @ [ObjectsRewrite request]) @
             map (\<lambda>r. ObjectsRewrite (request\<lparr>rewriteToken := rw_rewriteToken r\<rparr>))
                 (butlast (r0 # rest)))"
    using nd dn unfolding rs by (intro copy_loop_script [OF shift]) simp_all
  have "copy_body R src dest kms mb (io, h) =
     Some (Inr (), fold (\<lambda>r io. call_rewrite_cb io (Some r)) (tl rs) io,
           h @ map ObjectsRewrite
                 (request # map (\<lambda>r. request\<lparr>rewriteToken := rw_rewriteToken r\<rparr>) (butlast rs)))"
    using req first loop rs by (simp add: copy_body_def comp_def)
  then show "copy R pol src dest kms mb (io, h) =
           Some (Inr (), fold (\<lambda>r io. call_rewrite_cb io (Some r)) (tl rs) io,
                 h @ map ObjectsRewrite
                       (request # map (\<lambda>r. request\<lparr>rewriteToken := rw_rewriteToken r\<rparr>) (butlast rs)))"
    unfolding copy_def by (rule retry_loop_opt_Inr)
  show "length (request # map (\<lambda>r. request\<lparr>rewriteToken := rw_rewriteToken r\<rparr>) (butlast rs))
           = length rs"
    using ne by simp
  show "rewriteToken request = None" using req by (rule rewrite_request_of_token)
next
  fix i assume i: "Suc i < length rs"
  then have "i < length (butlast rs)" by simp
  then show "rewriteToken ((request # map (\<lambda>r. request\<lparr>rewriteToken := rw_rewriteToken r\<rparr>)
                             (butlast rs)) ! Suc i) = rw_rewriteToken (rs ! i)"
    by (simp add: nth_butlast)
qed

theorem copy_one_request_per_response_witness:
  "rewrite_request_of ''gs://b/a'' ''gs://c/d'' None None = Inr request3
 \<and> length script3 = 3
 \<and> list_all (\<lambda>r. \<not> rw_done r) (butlast script3)
 \<and> rw_done (last script3)
 \<and> copy remote3 policy0 ''gs://b/a'' ''gs://c/d'' None None (GcsIO_init, []) =
      Some (Inr (), GcsIO_init,
            [ObjectsRewrite request3,
             ObjectsRewrite (request3\<lparr>rewriteToken := Some ''T1''\<rparr>),
             ObjectsRewrite (request3\<lparr>rewriteToken := Some ''T2''\<rparr>)])"
proof -
  have req: "rewrite_request_of ''gs://b/a'' ''gs://c/d'' None None = Inr request3"
    by (simp add: rewrite_request_of_def parse_gcs_path_def gcs_path_match_def request3_def)
  have ne: "script3 \<noteq> []" by (simp add: script3_def)
  have nd: "\<forall>r\<in>set (butlast script3). \<not> rw_done r" by (simp add: script3_def)
  have dn: "rw_done (last script3)" by (simp add: script3_def)
  have script: "\<forall>k<length script3. \<forall>req calls. length calls = k \<longrightarrow>
                     objects_Rewrite remote3 ([] @ calls) req = Inr (script3 ! k)"
    by (simp add: remote3_def)
  have cb: "fold (\<lambda>r io. call_rewrite_cb io (Some r)) (tl script3) GcsIO_init = GcsIO_init"
    by (simp add: script3_def call_rewrite_cb_def GcsIO_init_def)
  from copy_one_request_per_response [OF req ne nd dn script, of policy0 GcsIO_init]
  have "copy remote3 policy0 ''gs://b/a'' ''gs://c/d'' None None (GcsIO_init, []) =
      Some (Inr (), GcsIO_init,
            [ObjectsRewrite request3,
             ObjectsRewrite (request3\<lparr>rewriteToken := Some ''T1''\<rparr>),
             ObjectsRewrite (request3\<lparr>rewriteToken := Some ''T2''\<rparr>)])"
    unfolding cb by (simp add: script3_def)
  with req nd dn show ?thesis by (simp add: list_all_iff script3_def)
qed

subsection \<open>copy_batch: a missing source fails alone\<close>

lemma set_order_length:
  "set_order_ok f \<Longrightarrow> distinct xs \<Longrightarrow> length (f xs) = length xs"
  by (metis distinct_card set_order_ok_def)

lemma rewrite_request_of_source:
  "rewrite_request_of src dest kms mb = Inr r \<Longrightarrow> parse_gcs_path src False = Inr (source_of r)"
  by (auto simp: rewrite_request_of_def source_of_def split: sum.splits prod.splits)

lemma pair_requests_ok:
  assumes "\<forall>p\<in>set ps. \<exists>r. rewrite_request_of (fst p) (snd p) kms mb = Inr r"
      and "\<forall>p\<in>S. \<exists>r. m p = Some r \<and> parse_gcs_path (fst p) False = Inr (source_of r)"
  shows "\<exists>m'. pair_requests ps kms mb m = Inr m'
           \<and> (\<forall>p\<in>S \<union> set ps. \<exists>r. m' p = Some r \<and> parse_gcs_path (fst p) False = Inr (source_of r))"
  using assms
proof (induction ps arbitrary: m S)
  case Nil
  then show ?case by simp
next
  case (Cons p ps)
  from Cons.prems(1) obtain r where r: "rewrite_request_of (fst p) (snd p) kms mb = Inr r" by auto
  have s: "parse_gcs_path (fst p) False = Inr (source_of r)"
    using r by (rule rewrite_request_of_source)
  have a: "\<forall>q\<in>set ps. \<exists>r. rewrite_request_of (fst q) (snd q) kms mb = Inr r"
    using Cons.prems(1) by simp
  have b: "\<forall>q\<in>insert p S. \<exists>r'. (m(p \<mapsto> r)) q = Some r' \<and> parse_gcs_path (fst q) False = Inr (source_of r')"
    using Cons.prems(2) s by auto
  from Cons.IH [OF a b] obtain m' where
    "pair_requests ps kms mb (m(p \<mapsto> r)) = Inr m'"
    "\<forall>q\<in>insert p S \<union> set ps. \<exists>r. m' q = Some r \<and> parse_gcs_path (fst q) False = Inr (source_of r)"
    by blast
  then show ?case using r by auto
qed

lemma batch_requests_ok:
  assumes "\<forall>p\<in>set ps. \<exists>r. m p = Some r"
  shows "\<exists>rs. batch_requests m ps = Inr rs \<and> list_all2 (\<lambda>p r. m p = Some r) ps rs"
  using assms
proof (induction ps)
  case Nil
  then show ?case by simp
next
  case (Cons p ps)
  then obtain r where r: "m p = Some r" by auto
  from Cons obtain rs where "batch_requests m ps = Inr rs" "list_all2 (\<lambda>p r. m p = Some r) ps rs"
    by auto
  with r show ?case by simp
qed

lemma batch_requests_length:
  "batch_requests m ps = Inr rs \<Longrightarrow> length rs = length ps"
  by (induction ps arbitrary: rs) (auto split: option.splits sum.splits)

lemma status_inv_upd:
  "status_inv m p2s \<Longrightarrow> v = not_found_status m p \<Longrightarrow> status_inv m (p2s(p \<mapsto> v))"
  by (simp add: status_inv_def)

lemma process_batch_ok:
  assumes "list_all2 (\<lambda>p c. \<exists>r. p2r p = Some r \<and> answer_ok m late r c) ps calls0"
      and "set ps \<subseteq> set pairs"
      and "requests_inv pairs p2r"
      and "status_inv m p2s"
  shows "\<exists>p2r' p2s' io'. process_batch (zip ps calls0) (p2r, p2s, io) = (Inr (), p2r', p2s', io')
           \<and> requests_inv pairs p2r' \<and> status_inv m p2s'
           \<and> (\<forall>q. p2s q \<noteq> None \<longrightarrow> p2s' q \<noteq> None)
           \<and> (late \<longrightarrow> (\<forall>q\<in>set ps. p2s' q \<noteq> None))"
  using assms
proof (induction ps arbitrary: calls0 p2r p2s io)
  case Nil
  then show ?case by simp
next
  case (Cons p ps)
  from Cons.prems(1) obtain c calls where calls0: "calls0 = c # calls"
    and hd: "\<exists>r. p2r p = Some r \<and> answer_ok m late r c"
    and tl: "list_all2 (\<lambda>p c. \<exists>r. p2r p = Some r \<and> answer_ok m late r c) ps calls"
    by (auto simp: list_all2_Cons1)
  from hd obtain r where r: "p2r p = Some r" and a: "answer_ok m late r c" by blast
  have pin: "p \<in> set pairs" and sub: "set ps \<subseteq> set pairs" using Cons.prems(2) by auto
  have src: "parse_gcs_path (fst p) False = Inr (source_of r)"
    using Cons.prems(3) pin r by (auto simp: requests_inv_def)
  show ?case
  proof (cases "source_of r = m")
    case True
    with a have e: "is_error c" "exception c = Some (HttpError 404)"
      by (simp_all add: answer_ok_def)
    let ?p2s = "p2s(p \<mapsto> copy_error_status (fst p) (exception c))"
    have "copy_error_status (fst p) (exception c) = not_found_status m p"
      using e src True by (simp add: not_found_status_def copy_error_status_def)
    with Cons.prems(4) have st: "status_inv m ?p2s" by (rule status_inv_upd)
    from Cons.IH [OF tl sub Cons.prems(3) st, of "call_rewrite_cb io (response c)"]
    obtain p2r' p2s' io' where
      run: "process_batch (zip ps calls) (p2r, ?p2s, call_rewrite_cb io (response c)) = (Inr (), p2r', p2s', io')"
      and inv: "requests_inv pairs p2r'" "status_inv m p2s'"
      and mono: "\<forall>q. ?p2s q \<noteq> None \<longrightarrow> p2s' q \<noteq> None"
      and all: "late \<longrightarrow> (\<forall>q\<in>set ps. p2s' q \<noteq> None)"
      by blast
    have "process_batch (zip (p # ps) calls0) (p2r, p2s, io) = (Inr (), p2r', p2s', io')"
      using e run calls0 by simp
    moreover have "?p2s q \<noteq> None" if "p2s q \<noteq> None" for q using that by simp
    then have "\<forall>q. p2s q \<noteq> None \<longrightarrow> p2s' q \<noteq> None" using mono by blast
    moreover have "?p2s p \<noteq> None" by simp
    then have "p2s' p \<noteq> None" using mono by blast
    ultimately show ?thesis using inv all by auto
  next
    case False
    with a obtain resp where e: "\<not> is_error c" "response c = Some resp" "late \<longrightarrow> rw_done resp"
      by (auto simp: answer_ok_def)
    show ?thesis
    proof (cases "rw_done resp")
      case True
      let ?p2s = "p2s(p \<mapsto> None)"
      have "None = not_found_status m p"
        using src False by (simp add: not_found_status_def)
      with Cons.prems(4) have st: "status_inv m ?p2s" by (rule status_inv_upd)
      from Cons.IH [OF tl sub Cons.prems(3) st, of "call_rewrite_cb io (response c)"]
      obtain p2r' p2s' io' where
        run: "process_batch (zip ps calls) (p2r, ?p2s, call_rewrite_cb io (response c)) = (Inr (), p2r', p2s', io')"
        and inv: "requests_inv pairs p2r'" "status_inv m p2s'"
        and mono: "\<forall>q. ?p2s q \<noteq> None \<longrightarrow> p2s' q \<noteq> None"
        and all: "late \<longrightarrow> (\<forall>q\<in>set ps. p2s' q \<noteq> None)"
        by blast
      have "process_batch (zip (p # ps) calls0) (p2r, p2s, io) = (Inr (), p2r', p2s', io')"
        using e True run calls0 by simp
      moreover have "?p2s q \<noteq> None" if "p2s q \<noteq> None" for q using that by simp
      then have "\<forall>q. p2s q \<noteq> None \<longrightarrow> p2s' q \<noteq> None" using mono by blast
      moreover have "?p2s p \<noteq> None" by simp
      then have "p2s' p \<noteq> None" using mono by blast
      ultimately show ?thesis using inv all by auto
    next
      case nd: False
      then have nl: "\<not> late" using e by auto
      let ?p2r = "p2r(p \<mapsto> r\<lparr>rewriteToken := rw_rewriteToken resp\<rparr>)"
      have ri: "requests_inv pairs ?p2r"
        using Cons.prems(3) src by (auto simp: requests_inv_def source_of_def)
      have rel: "list_all2 (\<lambda>p c. \<exists>r. ?p2r p = Some r \<and> answer_ok m late r c) ps calls"
        using tl
      proof (rule list_all2_mono)
        fix q d assume "\<exists>r. p2r q = Some r \<and> answer_ok m late r d"
        then obtain r' where r': "p2r q = Some r'" "answer_ok m late r' d" by blast
        show "\<exists>r. ?p2r q = Some r \<and> answer_ok m late r d"
        proof (cases "q = p")
          case True
          with r r' have "r' = r" by simp
          with r' True show ?thesis by (simp add: answer_ok_def source_of_def)
        next
          case False
          with r' show ?thesis by simp
        qed
      qed
      from Cons.IH [OF rel sub ri Cons.prems(4), of "call_rewrite_cb io (response c)"]
      obtain p2r' p2s' io' where
        run: "process_batch (zip ps calls) (?p2r, p2s, call_rewrite_cb io (response c)) = (Inr (), p2r', p2s', io')"
        and inv: "requests_inv pairs p2r'" "status_inv m p2s'"
        and mono: "\<forall>q. p2s q \<noteq> None \<longrightarrow> p2s' q \<noteq> None"
        and all: "late \<longrightarrow> (\<forall>q\<in>set ps. p2s' q \<noteq> None)"
        by blast
      have "process_batch (zip (p # ps) calls0) (p2r, p2s, io) = (Inr (), p2r', p2s', io')"
        using e nd r run calls0 by simp
      then show ?thesis using inv mono nl by auto
    qed
  qed
qed

lemma pending_set:
  assumes "set_order_ok set_order"
  shows "set (set_order (filter (\<lambda>p. p2s p = None) (remdups pairs))) = {p \<in> set pairs. p2s p = None}"
    and "distinct (set_order (filter (\<lambda>p. p2s p = None) (remdups pairs)))"
proof -
  have d: "distinct (filter (\<lambda>p. p2s p = None) (remdups pairs))" by simp
  from assms d have "distinct (set_order (filter (\<lambda>p. p2s p = None) (remdups pairs)))
      \<and> set (set_order (filter (\<lambda>p. p2s p = None) (remdups pairs)))
          = set (filter (\<lambda>p. p2s p = None) (remdups pairs))"
    unfolding set_order_ok_def by blast
  then show "set (set_order (filter (\<lambda>p. p2s p = None) (remdups pairs))) = {p \<in> set pairs. p2s p = None}"
    and "distinct (set_order (filter (\<lambda>p. p2s p = None) (remdups pairs)))"
    by auto
qed

lemma copy_batch_loop_ok:
  assumes so: "set_order_ok set_order"
      and ct: "\<And>h reqs. \<exists>calls. batch_Rewrite R h reqs = Inr calls
                 \<and> list_all2 (answer_ok m (length h0 + B \<le> length h)) reqs calls"
      and ri: "requests_inv pairs p2r"
      and si: "status_inv m p2s"
      and len: "length h = length h0 + k"
      and settled: "B < k \<longrightarrow> (\<forall>p\<in>set pairs. p2s p \<noteq> None)"
      and fuel: "B + 1 \<le> n + k"
  shows "\<exists>p2s' io' h'. copy_batch_loop (Suc n) R set_order pairs (p2r, p2s, io, h)
             = (Some (Inr p2s'), io', h')
           \<and> status_inv m p2s' \<and> (\<forall>p\<in>set pairs. p2s' p \<noteq> None)"
  using ri si len settled fuel
proof (induction n arbitrary: p2r p2s io h k)
  case 0
  let ?pend = "set_order (filter (\<lambda>p. p2s p = None) (remdups pairs))"
  from 0 have "B < k" by simp
  with 0 have all: "\<forall>p\<in>set pairs. p2s p \<noteq> None" by blast
  then have "set ?pend = {}" using pending_set(1) [OF so, of p2s pairs] by auto
  then have "?pend = []" by simp
  then have "copy_batch_loop (Suc 0) R set_order pairs (p2r, p2s, io, h) = (Some (Inr p2s), io, h)"
    by (simp add: Let_def)
  with all "0.prems"(2) show ?case by blast
next
  case (Suc n)
  let ?pend = "set_order (filter (\<lambda>p. p2s p = None) (remdups pairs))"
  show ?case
  proof (cases "?pend = []")
    case True
    then have "set ?pend = {}" by simp
    then have all: "\<forall>p\<in>set pairs. p2s p \<noteq> None"
      using pending_set(1) [OF so, of p2s pairs] by auto
    have "copy_batch_loop (Suc (Suc n)) R set_order pairs (p2r, p2s, io, h) = (Some (Inr p2s), io, h)"
      using True by (simp add: Let_def)
    with all Suc.prems(2) show ?thesis by blast
  next
    case False
    let ?late = "length h0 + B \<le> length h"
    have sub: "set ?pend \<subseteq> set pairs"
      using pending_set(1) [OF so, of p2s pairs] by auto
    have "\<forall>p\<in>set ?pend. \<exists>r. p2r p = Some r"
      using sub Suc.prems(1) by (auto simp: requests_inv_def)
    then obtain rs where rs: "batch_requests p2r ?pend = Inr rs"
      and rel: "list_all2 (\<lambda>p r. p2r p = Some r) ?pend rs"
      using batch_requests_ok by blast
    from ct [of h rs] obtain calls where calls: "batch_Rewrite R h rs = Inr calls"
      and ans: "list_all2 (answer_ok m ?late) rs calls" by blast
    have both: "list_all2 (\<lambda>p c. \<exists>r. p2r p = Some r \<and> answer_ok m ?late r c) ?pend calls"
    proof (rule list_all2_all_nthI)
      show "length ?pend = length calls"
        using list_all2_lengthD [OF rel] list_all2_lengthD [OF ans] by simp
    next
      fix i assume i: "i < length ?pend"
      then have i': "i < length rs" using list_all2_lengthD [OF rel] by simp
      have "p2r (?pend ! i) = Some (rs ! i)" by (rule list_all2_nthD [OF rel i])
      moreover have "answer_ok m ?late (rs ! i) (calls ! i)" by (rule list_all2_nthD [OF ans i'])
      ultimately show "\<exists>r. p2r (?pend ! i) = Some r \<and> answer_ok m ?late r (calls ! i)" by blast
    qed
    from process_batch_ok [OF both sub Suc.prems(1) Suc.prems(2), of io]
    obtain p2r' p2s' io' where
      run: "process_batch (zip ?pend calls) (p2r, p2s, io) = (Inr (), p2r', p2s', io')"
      and ri': "requests_inv pairs p2r'" and si': "status_inv m p2s'"
      and mono: "\<forall>q. p2s q \<noteq> None \<longrightarrow> p2s' q \<noteq> None"
      and all: "?late \<longrightarrow> (\<forall>q\<in>set ?pend. p2s' q \<noteq> None)"
      by blast
    have step: "copy_batch_loop (Suc (Suc n)) R set_order pairs (p2r, p2s, io, h) =
                copy_batch_loop (Suc n) R set_order pairs (p2r', p2s', io', h @ [BatchRewrite rs])"
      using False rs calls run by (subst copy_batch_loop.simps(2)) (simp add: Let_def)
    have len': "length (h @ [BatchRewrite rs]) = length h0 + Suc k"
      using Suc.prems(3) by simp
    have settled': "B < Suc k \<longrightarrow> (\<forall>p\<in>set pairs. p2s' p \<noteq> None)"
    proof (intro impI ballI)
      fix p assume b: "B < Suc k" and p: "p \<in> set pairs"
      then have late: ?late using Suc.prems(3) by simp
      show "p2s' p \<noteq> None"
      proof (cases "p2s p = None")
        case True
        with p have "p \<in> set ?pend" using pending_set(1) [OF so, of p2s pairs] by auto
        with all late show ?thesis by blast
      next
        case False
        with mono show ?thesis by blast
      qed
    qed
    have fuel': "B + 1 \<le> n + Suc k" using Suc.prems(5) by simp
    from Suc.IH [OF ri' si' len' settled' fuel', of io']
    show ?thesis unfolding step .
  qed
qed

lemma copy_results_ok:
  assumes "\<forall>p\<in>set ps. p2s p \<noteq> None" and "status_inv m p2s"
  shows "copy_results p2s ps = Inr (map (\<lambda>p. (fst p, snd p, not_found_status m p)) ps)"
  using assms
proof (induction ps)
  case Nil
  then show ?case by simp
next
  case (Cons p ps)
  then obtain v where v: "p2s p = Some v" by auto
  with Cons.prems(2) have "v = not_found_status m p" unfolding status_inv_def by blast
  with v Cons show ?case by simp
qed

text \<open>
  Claim C5. Let the pairs be well formed, let the iteration order of the pending set be any
  order, and let the batch layer answer as follows: one call per sub-request; a
  sub-request whose source is the missing object \<open>m\<close> comes back as an error with status
  404; every other sub-request comes back with a response, which is done from round \<open>B\<close>
  on. Then \<^verbatim>\<open>copy_batch\<close> returns (\<open>B + 2\<close> rounds of the loop suffice) one triple per input
  pair, in input order; the status of a pair is
  \<^verbatim>\<open>GcsIOError(ENOENT, 'Source file not found: <src>')\<close> when its source is \<open>m\<close> and
  \<^verbatim>\<open>None\<close> otherwise. So the number of failed entries is the number of input pairs whose
  source is \<open>m\<close>: with exactly one such pair among \<open>N\<close>, one entry is "source not
  found" and \<open>N - 1\<close> are successes.
\<close>

theorem copy_batch_one_missing_source:
  assumes so: "set_order_ok set_order"
      and wf: "\<forall>p\<in>set pairs. \<exists>r. rewrite_request_of (fst p) (snd p) kms mb = Inr r"
      and ct: "\<forall>h' reqs. \<exists>calls. batch_Rewrite R h' reqs = Inr calls
                 \<and> list_all2 (answer_ok m (length h + B \<le> length h')) reqs calls"
      and fuel: "B + 2 \<le> fuel"
  shows "fst (copy_batch fuel R set_order pairs kms mb (io, h)) =
           Some (Inr (map (\<lambda>p. (fst p, snd p, not_found_status m p)) pairs))
       \<and> length (filter (\<lambda>x. snd (snd x) \<noteq> None)
                  (map (\<lambda>p. (fst p, snd p, not_found_status m p)) pairs))
           = length (filter (\<lambda>p. parse_gcs_path (fst p) False = Inr m) pairs)"
proof
  show "fst (copy_batch fuel R set_order pairs kms mb (io, h)) =
           Some (Inr (map (\<lambda>p. (fst p, snd p, not_found_status m p)) pairs))"
  proof (cases "pairs = []")
    case True
    then show ?thesis by (simp add: copy_batch_def)
  next
    case False
    have e: "\<forall>p\<in>{}. \<exists>r. Map.empty p = Some r \<and> parse_gcs_path (fst p) False = Inr (source_of r)"
      by simp
    from pair_requests_ok [OF wf e] obtain p2r where
      p2r: "pair_requests pairs kms mb Map.empty = Inr p2r" and ri: "requests_inv pairs p2r"
      by (auto simp: requests_inv_def)
    have si: "status_inv m Map.empty" by (simp add: status_inv_def)
    from fuel obtain n where n: "fuel = Suc n" and f: "B + 1 \<le> n + 0"
      by (cases fuel) auto
    have ct': "\<exists>calls. batch_Rewrite R h' reqs = Inr calls
                 \<and> list_all2 (answer_ok m (length h + B \<le> length h')) reqs calls" for h' reqs
      using ct by blast
    from copy_batch_loop_ok [of set_order R m h B, OF so ct' ri si _ _ f, of h io]
    obtain p2s io' h' where
      run: "copy_batch_loop (Suc n) R set_order pairs (p2r, Map.empty, io, h) = (Some (Inr p2s), io', h')"
      and si': "status_inv m p2s" and all: "\<forall>p\<in>set pairs. p2s p \<noteq> None"
      by auto
    have "copy_results p2s pairs = Inr (map (\<lambda>p. (fst p, snd p, not_found_status m p)) pairs)"
      using all si' by (rule copy_results_ok)
    then show ?thesis
      using False p2r run n by (simp add: copy_batch_def)
  qed
  show "length (filter (\<lambda>x. snd (snd x) \<noteq> None)
                  (map (\<lambda>p. (fst p, snd p, not_found_status m p)) pairs))
           = length (filter (\<lambda>p. parse_gcs_path (fst p) False = Inr m) pairs)"
    by (induction pairs) (auto simp: not_found_status_def)
qed

theorem copy_batch_one_missing_source_witness:
  "set_order_ok rev
 \<and> length (filter (\<lambda>p. parse_gcs_path (fst p) False = Inr (''b'', ''gone'')) pairs5) = 1
 \<and> fst (copy_batch 3 remote5 rev pairs5 None None (GcsIO_init, [])) =
      Some (Inr [(''gs://b/one'', ''gs://c/one'', None),
                 (''gs://b/gone'', ''gs://c/two'',
                    Some (GcsIOError ENOENT ''Source file not found: gs://b/gone'')),
                 (''gs://b/three'', ''gs://c/three'', None)])
 \<and> length (snd (snd (copy_batch 3 remote5 rev pairs5 None None (GcsIO_init, [])))) = 2"
proof -
  have so: "set_order_ok rev" by (simp add: set_order_ok_def)
  have wf: "\<forall>p\<in>set pairs5. \<exists>r. rewrite_request_of (fst p) (snd p) None None = Inr r"
    by (simp add: pairs5_def rewrite_request_of_def parse_gcs_path_def gcs_path_match_def)
  have ct: "\<forall>h' reqs. \<exists>calls. batch_Rewrite remote5 h' reqs = Inr calls
                 \<and> list_all2 (answer_ok (''b'', ''gone'') (length ([] :: trace) + 1 \<le> length h')) reqs calls"
    by (auto simp: remote5_def remote0_def list_all2_conv_all_nth answer_ok_def source_of_def
          rewrite_call5_def rewrite_done0_def not_done5_def)
  have one: "length (filter (\<lambda>p. parse_gcs_path (fst p) False = Inr (''b'', ''gone'')) pairs5) = 1"
    by (simp add: pairs5_def parse_gcs_path_def gcs_path_match_def)
  have st: "map (\<lambda>p. (fst p, snd p, not_found_status (''b'', ''gone'') p)) pairs5 =
      [(''gs://b/one'', ''gs://c/one'', None),
       (''gs://b/gone'', ''gs://c/two'',
          Some (GcsIOError ENOENT ''Source file not found: gs://b/gone'')),
       (''gs://b/three'', ''gs://c/three'', None)]"
    by (simp add: pairs5_def not_found_status_def parse_gcs_path_def gcs_path_match_def)
  have res: "fst (copy_batch 3 remote5 rev pairs5 None None (GcsIO_init, [])) =
      Some (Inr [(''gs://b/one'', ''gs://c/one'', None),
                 (''gs://b/gone'', ''gs://c/two'',
                    Some (GcsIOError ENOENT ''Source file not found: gs://b/gone'')),
                 (''gs://b/three'', ''gs://c/three'', None)])"
    using copy_batch_one_missing_source [OF so wf ct, of 3 GcsIO_init] st by simp
  have tr: "length (snd (snd (copy_batch 3 remote5 rev pairs5 None None (GcsIO_init, [])))) = 2"
    by code_simp
  from so one res tr show ?thesis by blast
qed

subsection \<open>copy_batch: the size of a batch\<close>

lemma copy_batch_loop_batches:
  assumes so: "set_order_ok set_order"
  shows "\<exists>bs. snd (snd (copy_batch_loop n R set_order pairs (p2r, p2s, io, h))) = h @ map BatchRewrite bs
           \<and> (\<forall>b\<in>set bs. length b \<le> length (remdups pairs))
           \<and> ((\<forall>p\<in>set pairs. p2s p = None) \<longrightarrow> bs \<noteq> [] \<longrightarrow> length (hd bs) = length (remdups pairs))"
proof (induction n arbitrary: p2r p2s io h)
  case 0
  show ?case by (intro exI [of _ "[]"]) simp
next
  case (Suc n)
  let ?pend = "set_order (filter (\<lambda>p. p2s p = None) (remdups pairs))"
  have lp: "length ?pend = length (filter (\<lambda>p. p2s p = None) (remdups pairs))"
    using so by (intro set_order_length) simp_all
  then have le: "length ?pend \<le> length (remdups pairs)" by simp
  have full: "length ?pend = length (remdups pairs)" if "\<forall>p\<in>set pairs. p2s p = None"
  proof -
    have "filter (\<lambda>p. p2s p = None) (remdups pairs) = remdups pairs"
      using that by (intro filter_True) simp
    with lp show ?thesis by simp
  qed
  show ?case
  proof (cases "?pend = []")
    case True
    then have "copy_batch_loop (Suc n) R set_order pairs (p2r, p2s, io, h) = (Some (Inr p2s), io, h)"
      by (simp add: Let_def)
    then show ?thesis by (intro exI [of _ "[]"]) simp
  next
    case False
    show ?thesis
    proof (cases "batch_requests p2r ?pend")
      case (Inl e)
      then have "copy_batch_loop (Suc n) R set_order pairs (p2r, p2s, io, h) = (Some (Inl e), io, h)"
        using False by (simp add: Let_def)
      then show ?thesis by (intro exI [of _ "[]"]) simp
    next
      case (Inr rs)
      have lrs: "length rs = length ?pend" using Inr by (rule batch_requests_length)
      have one: "\<forall>b\<in>set [rs]. length b \<le> length (remdups pairs)" using lrs le by simp
      have hd1: "(\<forall>p\<in>set pairs. p2s p = None) \<longrightarrow> length rs = length (remdups pairs)"
        using lrs full by simp
      show ?thesis
      proof (cases "batch_Rewrite R h rs")
        case (Inl e)
        then have "copy_batch_loop (Suc n) R set_order pairs (p2r, p2s, io, h)
            = (Some (Inl e), io, h @ map BatchRewrite [rs])"
          using False Inr by (simp add: Let_def)
        then show ?thesis using one hd1 by (intro exI [of _ "[rs]"]) simp
      next
        case calls: (Inr calls)
        obtain r p2r' p2s' io' where pb:
          "process_batch (zip ?pend calls) (p2r, p2s, io) = (r, p2r', p2s', io')"
          by (cases "process_batch (zip ?pend calls) (p2r, p2s, io)") auto
        show ?thesis
        proof (cases r)
          case (Inl e)
          then have "copy_batch_loop (Suc n) R set_order pairs (p2r, p2s, io, h)
              = (Some (Inl e), io', h @ map BatchRewrite [rs])"
            using False Inr calls pb by (simp add: Let_def)
          then show ?thesis using one hd1 by (intro exI [of _ "[rs]"]) simp
        next
          case ok: (Inr u)
          have step: "copy_batch_loop (Suc n) R set_order pairs (p2r, p2s, io, h)
              = copy_batch_loop n R set_order pairs (p2r', p2s', io', h @ [BatchRewrite rs])"
            using False Inr calls pb ok by (simp add: Let_def)
          from Suc.IH [of p2r' p2s' io' "h @ [BatchRewrite rs]"] obtain bs where
            tr: "snd (snd (copy_batch_loop n R set_order pairs (p2r', p2s', io', h @ [BatchRewrite rs])))
                  = (h @ [BatchRewrite rs]) @ map BatchRewrite bs"
            and sz: "\<forall>b\<in>set bs. length b \<le> length (remdups pairs)"
            by blast
          have "snd (snd (copy_batch_loop (Suc n) R set_order pairs (p2r, p2s, io, h)))
                  = h @ map BatchRewrite (rs # bs)"
            unfolding step tr by simp
          moreover have "\<forall>b\<in>set (rs # bs). length b \<le> length (remdups pairs)"
            using sz one by simp
          ultimately show ?thesis using hd1 by (intro exI [of _ "rs # bs"]) simp
        qed
      qed
    qed
  qed
qed

lemma pair_requests_for:
  assumes "pair_requests ps kms mb m = Inr m'"
      and "\<forall>p\<in>S. \<exists>r. m p = Some r \<and> request_for kms mb p r"
  shows "\<forall>p\<in>S \<union> set ps. \<exists>r. m' p = Some r \<and> request_for kms mb p r"
  using assms
proof (induction ps arbitrary: m S)
  case Nil
  then show ?case by simp
next
  case (Cons p ps)
  from Cons.prems(1) obtain r where r: "rewrite_request_of (fst p) (snd p) kms mb = Inr r"
    and rest: "pair_requests ps kms mb (m(p \<mapsto> r)) = Inr m'"
    by (auto split: sum.splits)
  have "rewriteToken r = None" using r by (rule rewrite_request_of_token)
  then have "r\<lparr>rewriteToken := None\<rparr> = r" by simp
  then have rf: "request_for kms mb p r" using r by (simp add: request_for_def)
  have b: "\<forall>q\<in>insert p S. \<exists>r'. (m(p \<mapsto> r)) q = Some r' \<and> request_for kms mb q r'"
    using Cons.prems(2) rf by auto
  from Cons.IH [OF rest b] show ?case by simp
qed

lemma process_batch_pending:
  assumes "process_batch zs (p2r, p2s, io) = (Inr u, p2r', p2s', io')"
      and "\<forall>p\<in>S. \<exists>r. p2r p = Some r \<and> request_for kms mb p r"
  shows "(\<forall>p\<in>S. \<exists>r. p2r' p = Some r \<and> request_for kms mb p r)
       \<and> (\<forall>p. (p2s' p = None) = (p2s p = None \<and> \<not> (\<exists>c. (p, c) \<in> set zs \<and> settled c)))"
  using assms
proof (induction zs arbitrary: p2r p2s io)
  case Nil
  then show ?case by simp
next
  case (Cons z zs)
  obtain p c where z: "z = (p, c)" by (cases z)
  show ?case
  proof (cases "is_error c")
    case True
    then have s: "settled c" by (simp add: settled_def)
    let ?p2s = "p2s(p \<mapsto> copy_error_status (fst p) (exception c))"
    have run: "process_batch zs (p2r, ?p2s, call_rewrite_cb io (response c)) = (Inr u, p2r', p2s', io')"
      using Cons.prems(1) z True by simp
    from Cons.IH [OF run Cons.prems(2)]
    have r: "\<forall>q\<in>S. \<exists>r. p2r' q = Some r \<and> request_for kms mb q r"
      and t: "\<forall>q. (p2s' q = None) = (?p2s q = None \<and> \<not> (\<exists>c. (q, c) \<in> set zs \<and> settled c))"
      by blast+
    have "(p2s' q = None) = (p2s q = None \<and> \<not> (\<exists>d. (q, d) \<in> set (z # zs) \<and> settled d))" for q
      using t [rule_format, of q] s z by (cases "q = p") auto
    with r show ?thesis by blast
  next
    case ne: False
    from Cons.prems(1) z ne obtain resp where resp: "response c = Some resp"
      by (cases "response c") auto
    show ?thesis
    proof (cases "rw_done resp")
      case True
      then have s: "settled c" using resp by (simp add: settled_def)
      let ?p2s = "p2s(p \<mapsto> None)"
      have run: "process_batch zs (p2r, ?p2s, call_rewrite_cb io (response c)) = (Inr u, p2r', p2s', io')"
        using Cons.prems(1) z ne resp True by simp
      from Cons.IH [OF run Cons.prems(2)]
      have r: "\<forall>q\<in>S. \<exists>r. p2r' q = Some r \<and> request_for kms mb q r"
        and t: "\<forall>q. (p2s' q = None) = (?p2s q = None \<and> \<not> (\<exists>c. (q, c) \<in> set zs \<and> settled c))"
        by blast+
      have "(p2s' q = None) = (p2s q = None \<and> \<not> (\<exists>d. (q, d) \<in> set (z # zs) \<and> settled d))" for q
        using t [rule_format, of q] s z by (cases "q = p") auto
      with r show ?thesis by blast
    next
      case nd: False
      then have s: "\<not> settled c" using resp ne by (simp add: settled_def)
      from Cons.prems(1) z ne resp nd obtain request where rq: "p2r p = Some request"
        by (cases "p2r p") auto
      let ?p2r = "p2r(p \<mapsto> request\<lparr>rewriteToken := rw_rewriteToken resp\<rparr>)"
      have run: "process_batch zs (?p2r, p2s, call_rewrite_cb io (response c)) = (Inr u, p2r', p2s', io')"
        using Cons.prems(1) z ne resp nd rq by simp
      have inv: "\<forall>q\<in>S. \<exists>r. ?p2r q = Some r \<and> request_for kms mb q r"
      proof
        fix q assume q: "q \<in> S"
        then obtain r where r: "p2r q = Some r" "request_for kms mb q r"
          using Cons.prems(2) by blast
        show "\<exists>r. ?p2r q = Some r \<and> request_for kms mb q r"
        proof (cases "q = p")
          case True
          with r rq have "request_for kms mb p request" by simp
          then have "request_for kms mb p (request\<lparr>rewriteToken := rw_rewriteToken resp\<rparr>)"
            by (simp add: request_for_def)
          with True show ?thesis by simp
        next
          case False
          with r show ?thesis by simp
        qed
      qed
      from Cons.IH [OF run inv]
      have r: "\<forall>q\<in>S. \<exists>r. p2r' q = Some r \<and> request_for kms mb q r"
        and t: "\<forall>q. (p2s' q = None) = (p2s q = None \<and> \<not> (\<exists>c. (q, c) \<in> set zs \<and> settled c))"
        by blast+
      have "(p2s' q = None) = (p2s q = None \<and> \<not> (\<exists>d. (q, d) \<in> set (z # zs) \<and> settled d))" for q
        using t [rule_format, of q] s z by auto
      with r show ?thesis by blast
    qed
  qed
qed


lemma process_batch_fails:
  assumes "\<forall>z\<in>set zs. p2r (fst z) \<noteq> None"
  shows "(\<exists>e. fst (process_batch zs (p2r, p2s, io)) = Inl e)
       = (\<exists>z\<in>set zs. \<not> is_error (snd z) \<and> response (snd z) = None)"
  using assms
proof (induction zs arbitrary: p2r p2s io)
  case Nil
  show ?case by simp
next
  case (Cons z zs)
  obtain p c where z: "z = (p, c)" by (cases z)
  have k: "\<forall>z\<in>set zs. p2r (fst z) \<noteq> None" using Cons.prems by simp
  show ?case
  proof (cases "is_error c")
    case True
    then show ?thesis using Cons.IH [OF k] z by simp
  next
    case ne: False
    show ?thesis
    proof (cases "response c")
      case None
      then show ?thesis using z ne by simp
    next
      case (Some resp)
      show ?thesis
      proof (cases "rw_done resp")
        case True
        then show ?thesis using Cons.IH [OF k] z ne Some by simp
      next
        case False
        from Cons.prems z obtain request where rq: "p2r p = Some request" by auto
        let ?p2r = "p2r(p \<mapsto> request\<lparr>rewriteToken := rw_rewriteToken resp\<rparr>)"
        have k': "\<forall>z\<in>set zs. ?p2r (fst z) \<noteq> None" using k by simp
        have step: "process_batch (z # zs) (p2r, p2s, io)
            = process_batch zs (?p2r, p2s, call_rewrite_cb io (response c))"
          using z ne Some False rq by simp
        have "(\<exists>z\<in>set (z # zs). \<not> is_error (snd z) \<and> response (snd z) = None)
            = (\<exists>z\<in>set zs. \<not> is_error (snd z) \<and> response (snd z) = None)"
          using z Some by simp
        then show ?thesis
          unfolding step using Cons.IH [of ?p2r p2s "call_rewrite_cb io (response c)", OF k']
          by (rule ssubst)
      qed
    qed
  qed
qed

lemma pair_requests_Inr_iff:
  "(\<exists>m'. pair_requests ps kms mb m = Inr m')
     = (\<forall>p\<in>set ps. \<exists>r. rewrite_request_of (fst p) (snd p) kms mb = Inr r)"
  by (induction ps arbitrary: m) (auto split: sum.splits)

lemma BatchRewrite_map_inj: "map BatchRewrite bs = map BatchRewrite bs' \<Longrightarrow> bs = bs'"
  by (simp add: inj_def inj_map_eq_map)

lemma set_order_Nil: "set_order_ok set_order \<Longrightarrow> set_order [] = []"
  unfolding set_order_ok_def by (metis distinct.simps(1) set_empty)

lemma copy_rounds_Nil:
  "set_order_ok set_order \<Longrightarrow> copy_rounds n R set_order [] kms mb h D []"
  by (cases n) (simp_all add: set_order_Nil)

lemma copy_batch_loop_rounds:
  assumes so: "set_order_ok set_order"
      and inv: "\<forall>p\<in>set pairs. \<exists>r. p2r p = Some r \<and> request_for kms mb p r"
      and dom: "\<forall>p. (p \<in> D) = (p2s p \<noteq> None)"
  shows "\<exists>bs. snd (snd (copy_batch_loop n R set_order pairs (p2r, p2s, io, h))) = h @ map BatchRewrite bs
           \<and> copy_rounds n R set_order pairs kms mb h D bs"
  using inv dom
proof (induction n arbitrary: p2r p2s io h D)
  case 0
  show ?case by (intro exI [of _ "[]"]) simp
next
  case (Suc n)
  let ?pend = "set_order (filter (\<lambda>p. p2s p = None) (remdups pairs))"
  have "(\<lambda>p. p \<notin> D) = (\<lambda>p. p2s p = None)" using Suc.prems(2) by auto
  then have pe: "set_order (filter (\<lambda>p. p \<notin> D) (remdups pairs)) = ?pend" by simp
  have sp: "set ?pend = {p \<in> set pairs. p2s p = None}" and dp: "distinct ?pend"
    using pending_set [OF so, of p2s pairs] by blast+
  have known: "\<forall>p\<in>set ?pend. \<exists>r. p2r p = Some r"
    unfolding sp using Suc.prems(1) by blast
  show ?case
  proof (cases "?pend = []")
    case True
    then have "copy_batch_loop (Suc n) R set_order pairs (p2r, p2s, io, h) = (Some (Inr p2s), io, h)"
      by (simp add: Let_def)
    moreover have "copy_rounds (Suc n) R set_order pairs kms mb h D []"
      using True by (simp add: pe)
    ultimately show ?thesis by (intro exI [of _ "[]"]) simp
  next
    case False
    from batch_requests_ok [OF known] obtain rs where
      Inr: "batch_requests p2r ?pend = Inr rs" and rel: "list_all2 (\<lambda>p r. p2r p = Some r) ?pend rs"
      by blast
    have rf: "list_all2 (request_for kms mb) ?pend rs"
    proof (rule list_all2_all_nthI)
      show "length ?pend = length rs" by (rule list_all2_lengthD [OF rel])
    next
      fix i assume i: "i < length ?pend"
      have "p2r (?pend ! i) = Some (rs ! i)" by (rule list_all2_nthD [OF rel i])
      moreover have "?pend ! i \<in> set ?pend" using i by (rule nth_mem)
      then have "?pend ! i \<in> set pairs" unfolding sp by simp
      ultimately show "request_for kms mb (?pend ! i) (rs ! i)"
        using Suc.prems(1) by fastforce
    qed
    show ?thesis
    proof (cases "batch_Rewrite R h rs")
      case (Inl e)
      then have "copy_batch_loop (Suc n) R set_order pairs (p2r, p2s, io, h)
          = (Some (Inl e), io, h @ map BatchRewrite [rs])"
        using False Inr by (simp add: Let_def)
      moreover have "copy_rounds (Suc n) R set_order pairs kms mb h D [rs]"
        using False rf Inl by (simp add: pe)
      ultimately show ?thesis by (intro exI [of _ "[rs]"]) simp
    next
      case calls: (Inr calls)
      let ?bad = "\<exists>z\<in>set (zip ?pend calls). \<not> is_error (snd z) \<and> response (snd z) = None"
      have kz: "\<forall>z\<in>set (zip ?pend calls). p2r (fst z) \<noteq> None"
      proof
        fix z assume "z \<in> set (zip ?pend calls)"
        then have "(fst z, snd z) \<in> set (zip ?pend calls)" by simp
        then have "fst z \<in> set ?pend" by (rule set_zip_leftD)
        with known show "p2r (fst z) \<noteq> None" by auto
      qed
      obtain r p2r' p2s' io' where pb:
        "process_batch (zip ?pend calls) (p2r, p2s, io) = (r, p2r', p2s', io')"
        by (cases "process_batch (zip ?pend calls) (p2r, p2s, io)") auto
      have bad: "(\<exists>e. r = Inl e) = ?bad"
        using process_batch_fails [OF kz, of p2s io] pb by simp
      show ?thesis
      proof (cases r)
        case (Inl e)
        then have "copy_batch_loop (Suc n) R set_order pairs (p2r, p2s, io, h)
            = (Some (Inl e), io', h @ map BatchRewrite [rs])"
          using False Inr calls pb by (simp add: Let_def)
        moreover have "?bad" using bad Inl by simp
        then have "copy_rounds (Suc n) R set_order pairs kms mb h D [rs]"
          using False rf calls by (simp add: pe)
        ultimately show ?thesis by (intro exI [of _ "[rs]"]) simp
      next
        case ok: (Inr u)
        let ?D' = "D \<union> set (map fst (filter (\<lambda>z. settled (snd z)) (zip ?pend calls)))"
        have step: "copy_batch_loop (Suc n) R set_order pairs (p2r, p2s, io, h)
            = copy_batch_loop n R set_order pairs (p2r', p2s', io', h @ [BatchRewrite rs])"
          using False Inr calls pb ok by (simp add: Let_def)
        from process_batch_pending [OF pb [unfolded ok] Suc.prems(1)]
        have inv': "\<forall>p\<in>set pairs. \<exists>r. p2r' p = Some r \<and> request_for kms mb p r"
          and pend: "\<forall>p. (p2s' p = None) =
               (p2s p = None \<and> \<not> (\<exists>c. (p, c) \<in> set (zip ?pend calls) \<and> settled c))"
          by blast+
        have dom': "\<forall>p. (p \<in> ?D') = (p2s' p \<noteq> None)"
        proof
          fix p
          have a: "(p \<in> set (map fst (filter (\<lambda>z. settled (snd z)) (zip ?pend calls))))
              = (\<exists>c. (p, c) \<in> set (zip ?pend calls) \<and> settled c)"
            by force
          show "(p \<in> ?D') = (p2s' p \<noteq> None)"
            unfolding Un_iff a pend [rule_format, of p]
            using Suc.prems(2) [rule_format, of p] by auto
        qed
        from Suc.IH [OF inv' dom', of io' "h @ [BatchRewrite rs]"] obtain bs where
          tr: "snd (snd (copy_batch_loop n R set_order pairs (p2r', p2s', io', h @ [BatchRewrite rs])))
                = (h @ [BatchRewrite rs]) @ map BatchRewrite bs"
          and rp: "copy_rounds n R set_order pairs kms mb (h @ [BatchRewrite rs]) ?D' bs"
          by blast
        have "snd (snd (copy_batch_loop (Suc n) R set_order pairs (p2r, p2s, io, h)))
                = h @ map BatchRewrite (rs # bs)"
          unfolding step tr by simp
        moreover have unf: "copy_rounds (Suc n) R set_order pairs kms mb h D (rs # bs)
            = (?pend \<noteq> [] \<and> list_all2 (request_for kms mb) ?pend rs \<and>
               (if ?bad then bs = []
                else copy_rounds n R set_order pairs kms mb (h @ [BatchRewrite rs]) ?D' bs))"
          by (simp only: copy_rounds.simps pe Let_def list.case calls sum.case)
        have nbad: "\<not> ?bad" using bad ok by simp
        have "if ?bad then bs = []
              else copy_rounds n R set_order pairs kms mb (h @ [BatchRewrite rs]) ?D' bs"
          using nbad rp by (simp only: if_False)
        then have "copy_rounds (Suc n) R set_order pairs kms mb h D (rs # bs)"
          unfolding unf using False rf by (intro conjI)
        ultimately show ?thesis by blast
      qed
    qed
  qed
qed

lemma copy_batch_trace:
  assumes "pairs \<noteq> []" and "pair_requests pairs kms mb Map.empty = Inr p2r"
  shows "snd (snd (copy_batch fuel R set_order pairs kms mb (io, h))) =
         snd (snd (copy_batch_loop fuel R set_order pairs (p2r, Map.empty, io, h)))"
  using assms by (auto simp: copy_batch_def split: prod.splits option.splits sum.splits)

text \<open>
  Claim C1, as the code has it. \<^verbatim>\<open>copy_batch\<close> does not split its input: the comment at
  \<open>MAX_BATCH_OPERATION_SIZE\<close> and the docstring make the bound a duty of the caller
  ("not to exceed MAX_BATCH_OPERATION_SIZE in length"), and the constant is not used in
  the method. For any bound on the number of rounds and any service, the calls of
  \<^verbatim>\<open>copy_batch\<close> are rewrite batches, and these batches are the rounds of \<open>copy_rounds\<close>, from
  no recorded outcome on: within the bound, a round sends one batch that holds one request
  for each distinct pair of the input without a recorded outcome, in the iteration order
  of the set, and it sends no batch when no such pair is left; a pair has a recorded
  outcome once its call is an error or a response that is done; the rounds end at a batch
  that the batch layer refuses or answers with a call that is neither an error nor a
  response. When a path of the input is malformed, no batch is sent. So no batch holds more
  sub-requests than the input has distinct pairs, and the first batch holds exactly one
  sub-request for every distinct pair: an input of at most \<open>MAX_BATCH_OPERATION_SIZE\<close> pairs
  gives batches of at most that size, and nothing bounds the batches of a longer input.
\<close>

theorem copy_batch_does_not_split:
  assumes so: "set_order_ok set_order"
  shows "\<exists>bs. snd (snd (copy_batch fuel R set_order pairs kms mb (io, h))) = h @ map BatchRewrite bs
           \<and> (\<forall>b\<in>set bs. length b \<le> card (set pairs))
           \<and> (bs \<noteq> [] \<longrightarrow> length (hd bs) = card (set pairs))
           \<and> (length pairs \<le> MAX_BATCH_OPERATION_SIZE \<longrightarrow>
                (\<forall>b\<in>set bs. length b \<le> MAX_BATCH_OPERATION_SIZE))
           \<and> (if \<forall>p\<in>set pairs. \<exists>r. rewrite_request_of (fst p) (snd p) kms mb = Inr r
               then copy_rounds fuel R set_order pairs kms mb h {} bs
               else bs = [])"
proof -
  let ?wf = "\<forall>p\<in>set pairs. \<exists>r. rewrite_request_of (fst p) (snd p) kms mb = Inr r"
  let ?rounds = "\<lambda>bs. if ?wf then copy_rounds fuel R set_order pairs kms mb h {} bs else bs = []"
  have card: "length (remdups pairs) = card (set pairs)" by (simp add: length_remdups_card_conv)
  have "\<exists>bs. snd (snd (copy_batch fuel R set_order pairs kms mb (io, h))) = h @ map BatchRewrite bs
           \<and> (\<forall>b\<in>set bs. length b \<le> card (set pairs))
           \<and> (bs \<noteq> [] \<longrightarrow> length (hd bs) = card (set pairs))
           \<and> ?rounds bs"
  proof (cases "pairs = []")
    case True
    then have "copy_batch fuel R set_order pairs kms mb (io, h) = (Some (Inr []), io, h)"
      by (simp add: copy_batch_def)
    moreover have "?rounds []" using True copy_rounds_Nil [OF so] by simp
    ultimately show ?thesis by (intro exI [of _ "[]"]) simp
  next
    case False
    show ?thesis
    proof (cases "pair_requests pairs kms mb Map.empty")
      case (Inl e)
      then have "copy_batch fuel R set_order pairs kms mb (io, h) = (Some (Inl e), io, h)"
        using False by (simp add: copy_batch_def)
      moreover have nwf: "\<not> ?wf"
        using Inl pair_requests_Inr_iff [of pairs kms mb Map.empty] by simp
      have "?rounds []" using nwf by (simp only: if_False)
      ultimately show ?thesis by (intro exI [of _ "[]"]) (simp only: append_Nil2 list.map, simp)
    next
      case (Inr p2r)
      have wf: "?wf" using Inr pair_requests_Inr_iff [of pairs kms mb Map.empty] by blast
      have e: "\<forall>p\<in>{}. \<exists>r. Map.empty p = Some r \<and> request_for kms mb p r" by simp
      from pair_requests_for [OF Inr e]
      have inv: "\<forall>p\<in>set pairs. \<exists>r. p2r p = Some r \<and> request_for kms mb p r" by simp
      have dom: "\<forall>p. (p \<in> ({} :: pair set)) = ((Map.empty :: pair \<rightharpoonup> exn option) p \<noteq> None)" by simp
      have tr: "snd (snd (copy_batch fuel R set_order pairs kms mb (io, h))) =
            snd (snd (copy_batch_loop fuel R set_order pairs (p2r, Map.empty, io, h)))"
        using False Inr by (rule copy_batch_trace)
      from copy_batch_loop_batches [OF so, of fuel R pairs p2r Map.empty io h]
      obtain bs where bs:
        "snd (snd (copy_batch_loop fuel R set_order pairs (p2r, Map.empty, io, h))) = h @ map BatchRewrite bs"
        "\<forall>b\<in>set bs. length b \<le> length (remdups pairs)"
        "bs \<noteq> [] \<longrightarrow> length (hd bs) = length (remdups pairs)"
        by auto
      from copy_batch_loop_rounds [OF so inv dom, of fuel R io h]
      obtain bs' where bs':
        "snd (snd (copy_batch_loop fuel R set_order pairs (p2r, Map.empty, io, h))) = h @ map BatchRewrite bs'"
        "copy_rounds fuel R set_order pairs kms mb h {} bs'"
        by blast
      from bs(1) bs'(1) have "bs' = bs" by (simp add: BatchRewrite_map_inj)
      with bs'(2) wf have "?rounds bs" by simp
      with tr bs show ?thesis unfolding card by (intro exI [of _ bs]) simp
    qed
  qed
  then obtain bs where bs:
    "snd (snd (copy_batch fuel R set_order pairs kms mb (io, h))) = h @ map BatchRewrite bs"
    "\<forall>b\<in>set bs. length b \<le> card (set pairs)"
    "bs \<noteq> [] \<longrightarrow> length (hd bs) = card (set pairs)"
    "?rounds bs"
    by blast
  have "card (set pairs) \<le> length pairs" by (rule card_length)
  then have "length pairs \<le> MAX_BATCH_OPERATION_SIZE \<longrightarrow>
                (\<forall>b\<in>set bs. length b \<le> MAX_BATCH_OPERATION_SIZE)"
    using bs(2) by fastforce
  with bs show ?thesis by blast
qed

lemma copy_batch_first_round:
  assumes so: "set_order_ok set_order"
      and ne: "pairs \<noteq> []"
      and wf: "\<forall>p\<in>set pairs. \<exists>r. rewrite_request_of (fst p) (snd p) kms mb = Inr r"
  shows "\<exists>bs. snd (snd (copy_batch (Suc n) R set_order pairs kms mb (io, h))) = h @ map BatchRewrite bs
           \<and> bs \<noteq> [] \<and> length (hd bs) = card (set pairs)"
proof -
  let ?none = "Map.empty :: pair \<rightharpoonup> exn option"
  let ?pend = "set_order (filter (\<lambda>p. ?none p = None) (remdups pairs))"
  have e: "\<forall>p\<in>{}. \<exists>r. Map.empty p = Some r \<and> parse_gcs_path (fst p) False = Inr (source_of r)"
    by simp
  from pair_requests_ok [OF wf e] obtain p2r where
    p2r: "pair_requests pairs kms mb Map.empty = Inr p2r" and ri: "requests_inv pairs p2r"
    by (auto simp: requests_inv_def)
  have sp: "set ?pend = set pairs" using pending_set(1) [OF so, of ?none pairs] by simp
  then have pne: "?pend \<noteq> []" using ne by auto
  have "\<forall>p\<in>set ?pend. \<exists>r. p2r p = Some r"
    using sp ri by (auto simp: requests_inv_def)
  then obtain rs where rs: "batch_requests p2r ?pend = Inr rs"
    using batch_requests_ok by blast
  have "length rs = length ?pend" using rs by (rule batch_requests_length)
  also have "\<dots> = length (filter (\<lambda>p. ?none p = None) (remdups pairs))"
    using so by (intro set_order_length) simp_all
  also have "\<dots> = card (set pairs)" by (simp add: length_remdups_card_conv)
  finally have lrs: "length rs = card (set pairs)" .
  have "\<exists>bs. snd (snd (copy_batch_loop (Suc n) R set_order pairs (p2r, ?none, io, h)))
          = h @ map BatchRewrite (rs # bs)"
  proof (cases "batch_Rewrite R h rs")
    case (Inl e)
    then have "copy_batch_loop (Suc n) R set_order pairs (p2r, ?none, io, h)
        = (Some (Inl e), io, h @ map BatchRewrite [rs])"
      using pne rs by (simp add: Let_def)
    then show ?thesis by (intro exI [of _ "[]"]) simp
  next
    case calls: (Inr calls)
    obtain r p2r' p2s' io' where pb:
      "process_batch (zip ?pend calls) (p2r, ?none, io) = (r, p2r', p2s', io')"
      by (cases "process_batch (zip ?pend calls) (p2r, ?none, io)") auto
    show ?thesis
    proof (cases r)
      case (Inl e)
      then have "copy_batch_loop (Suc n) R set_order pairs (p2r, ?none, io, h)
          = (Some (Inl e), io', h @ map BatchRewrite [rs])"
        using pne rs calls pb by (simp add: Let_def)
      then show ?thesis by (intro exI [of _ "[]"]) simp
    next
      case ok: (Inr u)
      have step: "copy_batch_loop (Suc n) R set_order pairs (p2r, ?none, io, h)
          = copy_batch_loop n R set_order pairs (p2r', p2s', io', h @ [BatchRewrite rs])"
        using pne rs calls pb ok by (simp add: Let_def)
      from copy_batch_loop_batches [OF so, of n R pairs p2r' p2s' io' "h @ [BatchRewrite rs]"]
      obtain bs where
        "snd (snd (copy_batch_loop n R set_order pairs (p2r', p2s', io', h @ [BatchRewrite rs])))
           = (h @ [BatchRewrite rs]) @ map BatchRewrite bs"
        by blast
      then have "snd (snd (copy_batch_loop (Suc n) R set_order pairs (p2r, ?none, io, h)))
           = h @ map BatchRewrite (rs # bs)"
        unfolding step by simp
      then show ?thesis by blast
    qed
  qed
  then obtain bs where "snd (snd (copy_batch_loop (Suc n) R set_order pairs (p2r, ?none, io, h)))
          = h @ map BatchRewrite (rs # bs)" by blast
  then have "snd (snd (copy_batch (Suc n) R set_order pairs kms mb (io, h)))
          = h @ map BatchRewrite (rs # bs)"
    using copy_batch_trace [OF ne p2r] by simp
  with lrs show ?thesis by (intro exI [of _ "rs # bs"]) simp
qed

lemma batch_sizes_map: "batch_sizes (map BatchRewrite bs) = map length bs"
  by (induction bs) simp_all

lemma pairs101_distinct: "distinct pairs101"
proof -
  have "inj_on (\<lambda>i. (''gs://b/'' @ replicate (Suc i) (CHR ''x''),
                      ''gs://c/'' @ replicate (Suc i) (CHR ''x''))) (set [0..<101])"
    by (rule inj_onI) (auto dest: arg_cong [where f = length])
  then show ?thesis unfolding pairs101_def by (simp add: distinct_map)
qed

lemma pairs101_well_formed:
  "\<forall>p\<in>set pairs101. \<exists>r. rewrite_request_of (fst p) (snd p) None None = Inr r"
  by (auto simp: pairs101_def rewrite_request_of_def parse_gcs_path_def gcs_path_match_def)

text \<open>
  The claim as stated fails: for 101 distinct well-formed pairs the first batch holds 101
  sub-requests.
\<close>

theorem copy_batch_does_not_split_counterexample:
  "take 1 (batch_sizes (snd (snd (copy_batch 2 remote0 input_order pairs101 None None (GcsIO_init, [])))))
     = [101]
 \<and> MAX_BATCH_OPERATION_SIZE < 101"
proof
  have so: "set_order_ok input_order" by (simp add: set_order_ok_def input_order_def)
  have ne: "pairs101 \<noteq> []" by (simp add: pairs101_def)
  have card: "card (set pairs101) = 101"
    using distinct_card [OF pairs101_distinct] by (simp add: pairs101_def)
  from copy_batch_first_round [OF so ne pairs101_well_formed, of 1 remote0 GcsIO_init "[]"]
  obtain bs where
    tr: "snd (snd (copy_batch 2 remote0 input_order pairs101 None None (GcsIO_init, [])))
          = map BatchRewrite bs"
    and bne: "bs \<noteq> []" and hd: "length (hd bs) = card (set pairs101)"
    by (auto simp: numeral_2_eq_2)
  from bne obtain b bs' where bs: "bs = b # bs'" by (cases bs) auto
  show "take 1 (batch_sizes (snd (snd (copy_batch 2 remote0 input_order pairs101 None None (GcsIO_init, [])))))
     = [101]"
    unfolding tr batch_sizes_map using hd card bs by simp
  show "MAX_BATCH_OPERATION_SIZE < 101" by (simp add: MAX_BATCH_OPERATION_SIZE_def)
qed

lemma pairs5_well_formed:
  "\<forall>p\<in>set pairs5. \<exists>r. rewrite_request_of (fst p) (snd p) None None = Inr r"
  by (auto simp: pairs5_def rewrite_request_of_def parse_gcs_path_def gcs_path_match_def)

theorem copy_batch_does_not_split_witness:
  "set_order_ok rev
 \<and> length pairs5 \<le> MAX_BATCH_OPERATION_SIZE
 \<and> batch_sizes (snd (snd (copy_batch 3 remote5 rev pairs5 None None (GcsIO_init, [])))) = [3, 2]
 \<and> (\<exists>bs. snd (snd (copy_batch 3 remote5 rev pairs5 None None (GcsIO_init, []))) = map BatchRewrite bs
        \<and> map length bs = [3, 2]
        \<and> copy_rounds 3 remote5 rev pairs5 None None [] {} bs)"
proof -
  have so: "set_order_ok rev" by (simp add: set_order_ok_def)
  have le: "length pairs5 \<le> MAX_BATCH_OPERATION_SIZE"
    by (simp add: pairs5_def MAX_BATCH_OPERATION_SIZE_def)
  have ev: "batch_sizes (snd (snd (copy_batch 3 remote5 rev pairs5 None None (GcsIO_init, [])))) = [3, 2]"
    by code_simp
  from copy_batch_does_not_split [OF so, of 3 remote5 pairs5 None None GcsIO_init "[]"]
  obtain bs where
    tr: "snd (snd (copy_batch 3 remote5 rev pairs5 None None (GcsIO_init, []))) = map BatchRewrite bs"
    and rounds: "copy_rounds 3 remote5 rev pairs5 None None [] {} bs"
    using pairs5_well_formed by auto
  have ml: "map length bs = [3, 2]" using ev unfolding tr batch_sizes_map .
  from tr ml rounds have
    "\<exists>bs. snd (snd (copy_batch 3 remote5 rev pairs5 None None (GcsIO_init, []))) = map BatchRewrite bs
        \<and> map length bs = [3, 2]
        \<and> copy_rounds 3 remote5 rev pairs5 None None [] {} bs"
    by (intro exI [of _ bs] conjI)
  with so le ev show ?thesis by (intro conjI)
qed

subsection \<open>GcsDownloader: ranges and the pinned generation\<close>

lemma bytesio_write_empty:
  "bytesio_write (bytesio_truncate (bytesio_seek s 0) 0) data = \<lparr>bio_buf = data, bio_pos = length data\<rparr>"
  by (simp add: bytesio_write_def bytesio_truncate_def bytesio_seek_def)

lemma get_range_Inr:
  assumes "download_GetRange R h (d_download_request d) (d_downloader d) start (end' - 1) = Inr data"
  shows "get_range R d start end' h =
           (Inr data, d\<lparr>d_download_stream := \<lparr>bio_buf = data, bio_pos = length data\<rparr>\<rparr>,
            h @ [DownloadGetRange (d_download_request d) (d_downloader d) start (end' - 1)])"
  using assms by (simp add: get_range_def Let_def bytesio_write_empty bytesio_getvalue_def)

lemma get_range_Inl:
  assumes "download_GetRange R h (d_download_request d) (d_downloader d) start (end' - 1) = Inl e"
  shows "get_range R d start end' h =
           (Inl e, d\<lparr>d_download_stream := \<lparr>bio_buf = [], bio_pos = 0\<rparr>\<rparr>,
            h @ [DownloadGetRange (d_download_request d) (d_downloader d) start (end' - 1)])"
  using assms
  by (simp add: get_range_def Let_def bytesio_truncate_def bytesio_seek_def)

text \<open>
  Claim C6. Let the session be open on an object whose bytes, at the generation of the
  session, are \<open>content\<close>, with \<open>size = length content\<close>, and let the transfer object
  deliver ranges as the service specifies. Then for \<open>0 \<le> start < end \<le> size\<close>,
  \<^verbatim>\<open>get_range(start, end)\<close> returns exactly the \<open>end - start\<close> bytes of \<open>content\<close> from
  \<open>start\<close>, whatever the stream held before; it makes one \<^verbatim>\<open>GetRange(start, end - 1)\<close>
  call, and the stream holds these bytes only afterwards. The same call on the session
  it leaves, after any further calls to the service, returns the same bytes.
\<close>

theorem get_range_exact_and_stable:
  assumes contract: "ranged_get R (d_download_request d) (d_downloader d) content"
      and size: "d_size d = int (length content)"
      and range: "0 \<le> start" "start < end'" "end' \<le> d_size d"
  shows "\<exists>bs d'. get_range R d start end' h =
             (Inr bs, d', h @ [DownloadGetRange (d_download_request d) (d_downloader d) start (end' - 1)])
           \<and> int (length bs) = end' - start
           \<and> bs = take (nat (end' - start)) (drop (nat start) content)
           \<and> bytesio_getvalue (d_download_stream d') = bs
           \<and> (\<forall>h'. fst (get_range R d' start end' h') = Inr bs)"
proof -
  let ?bs = "take (nat (end' - start)) (drop (nat start) content)"
  let ?d' = "d\<lparr>d_download_stream := \<lparr>bio_buf = ?bs, bio_pos = length ?bs\<rparr>\<rparr>"
  have a: "0 \<le> start \<and> start \<le> end' - 1 \<and> end' - 1 < int (length content)"
    using range size by linarith
  have fetch: "download_GetRange R h' (d_download_request d) (d_downloader d) start (end' - 1) = Inr ?bs"
    for h'
    using contract [unfolded ranged_get_def, rule_format, OF a, of h'] by simp
  have run: "get_range R d start end' h =
      (Inr ?bs, ?d', h @ [DownloadGetRange (d_download_request d) (d_downloader d) start (end' - 1)])"
    using fetch [of h] by (rule get_range_Inr)
  have len: "int (length ?bs) = end' - start"
    using range size by simp
  have again: "fst (get_range R ?d' start end' h') = Inr ?bs" for h'
  proof -
    have "download_GetRange R h' (d_download_request ?d') (d_downloader ?d') start (end' - 1) = Inr ?bs"
      using fetch [of h'] by simp
    from get_range_Inr [OF this] show ?thesis by simp
  qed
  show ?thesis
    using run len again by (intro exI [of _ ?bs] exI [of _ ?d']) (simp add: bytesio_getvalue_def)
qed

lemma session0_open:
  "fst (GcsDownloader_init remote0 policy0 ''gs://b/obj'' 16 (GcsIO_init, [])) = Inr session0"
  by (simp add: GcsDownloader_init_def parse_gcs_path_def gcs_path_match_def
        get_project_number_def get_bucket_def remote0_def GcsIO_init_def Let_def
        get_object_metadata_def with_exponential_backoff_def retry_loop_Inr session0_def)

theorem get_range_exact_and_stable_witness:
  "ranged_get remote0 (d_download_request session0) (d_downloader session0) content0
 \<and> d_size session0 = int (length content0)
 \<and> fst (get_range remote0 session0 2 5 []) = Inr [30, 40, 50]
 \<and> fst (get_range remote0 (fst (snd (get_range remote0 session0 2 5 []))) 2 5
           (snd (snd (get_range remote0 session0 2 5 [])))) = Inr [30, 40, 50]"
proof -
  have c: "ranged_get remote0 (d_download_request session0) (d_downloader session0) content0"
    by (simp add: ranged_get_def remote0_def)
  have s: "d_size session0 = int (length content0)"
    by (simp add: session0_def content0_def)
  have r: "(0::int) \<le> 2" "(2::int) < 5" "5 \<le> d_size session0"
    by (simp_all add: session0_def)
  from get_range_exact_and_stable [OF c s r, of "[]"] obtain bs d' where
    run: "get_range remote0 session0 2 5 [] =
            (Inr bs, d', [] @ [DownloadGetRange (d_download_request session0) (d_downloader session0) 2 (5 - 1)])"
    and bs: "bs = take (nat (5 - 2)) (drop (nat 2) content0)"
    and again: "\<forall>h'. fst (get_range remote0 d' 2 5 h') = Inr bs"
    by blast
  have v: "bs = [30, 40, 50]" using bs by (simp add: content0_def)
  from run v again c s show ?thesis by simp
qed

lemma retry_loop_Inr_last:
  "retry_loop flt n f s = (Inr v, s') \<Longrightarrow> \<exists>s0. f s0 = (Inr v, s')"
proof (induction n arbitrary: s)
  case 0
  then show ?case by auto
next
  case (Suc n)
  then show ?case by (auto split: prod.splits sum.splits if_splits)
qed

lemma get_range_keeps:
  "d_get_request (fst (snd (get_range R d start end' h))) = d_get_request d"
  "d_download_request (fst (snd (get_range R d start end' h))) = d_download_request d"
  "d_downloader (fst (snd (get_range R d start end' h))) = d_downloader d"
  "snd (snd (get_range R d start end' h)) =
     h @ [DownloadGetRange (d_download_request d) (d_downloader d) start (end' - 1)]"
  by (simp_all add: get_range_def Let_def split: sum.splits)

lemma get_ranges_keeps:
  "d_get_request (fst (get_ranges R rs (d, h))) = d_get_request d
 \<and> d_download_request (fst (get_ranges R rs (d, h))) = d_download_request d
 \<and> d_downloader (fst (get_ranges R rs (d, h))) = d_downloader d
 \<and> snd (get_ranges R rs (d, h)) =
     h @ map (\<lambda>r. DownloadGetRange (d_download_request d) (d_downloader d) (fst r) (snd r - 1)) rs"
proof (induction rs arbitrary: d h)
  case Nil
  show ?case by simp
next
  case (Cons r rs)
  obtain d1 h1 where st: "snd (get_range R d (fst r) (snd r) h) = (d1, h1)"
    by (cases "snd (get_range R d (fst r) (snd r) h)")
  from st have d1: "d1 = fst (snd (get_range R d (fst r) (snd r) h))"
    and h1: "h1 = snd (snd (get_range R d (fst r) (snd r) h))" by simp_all
  have k: "d_get_request d1 = d_get_request d" "d_download_request d1 = d_download_request d"
    "d_downloader d1 = d_downloader d"
    "h1 = h @ [DownloadGetRange (d_download_request d) (d_downloader d) (fst r) (snd r - 1)]"
    unfolding d1 h1 by (rule get_range_keeps)+
  show ?case using Cons.IH [of d1 h1] k st by simp
qed

text \<open>
  Claim C7. If \<^verbatim>\<open>GcsDownloader.__init__\<close> succeeds, the generation of the session's request
  is the generation of the metadata that the metadata fetch returned (and the size is
  its size), and the transfer object was initialised, as the last call of the
  constructor, with that request. After any run of range reads, whether they succeed or
  raise, the request of the session is unchanged, and every call the reads made is a
  range request of the transfer object for exactly that request: same bucket, object and
  generation.
\<close>

theorem read_session_generation_pinned:
  assumes init: "GcsDownloader_init R pol path buffer_size st = (Inr d, io', h')"
  shows "(\<exists>h0 metadata.
            objects_Get R h0 \<lparr>get_bucket_name = d_bucket d, get_object = d_name d, generation = None\<rparr>
              = Inr metadata
          \<and> d_get_request d = \<lparr>get_bucket_name = d_bucket d, get_object = d_name d,
                                generation = obj_generation metadata\<rparr>
          \<and> d_size d = obj_size metadata)
       \<and> d_download_request d = d_get_request d
       \<and> (\<exists>h2. h' = h2 @ [ObjectsGetDownload (d_get_request d) (d_downloader d)])
       \<and> d_get_request (fst (get_ranges R rs (d, h))) = d_get_request d
       \<and> d_download_request (fst (get_ranges R rs (d, h))) = d_get_request d
       \<and> snd (get_ranges R rs (d, h)) =
           h @ map (\<lambda>r. DownloadGetRange (d_get_request d) (d_downloader d) (fst r) (snd r - 1)) rs"
proof -
  from init obtain bucket name where p: "parse_gcs_path path False = Inr (bucket, name)"
    by (auto simp: GcsDownloader_init_def split: sum.splits)
  let ?req = "\<lparr>get_bucket_name = bucket, get_object = name, generation = None\<rparr>"
  from init p obtain pn io1 h1 where g: "get_project_number R bucket st = (Inr pn, io1, h1)"
    by (auto simp: GcsDownloader_init_def split: sum.splits prod.splits)
  from init p g obtain metadata h2 where m: "get_object_metadata R pol ?req h1 = (Inr metadata, h2)"
    by (auto simp: GcsDownloader_init_def split: sum.splits prod.splits if_splits)
  let ?greq = "\<lparr>get_bucket_name = bucket, get_object = name, generation = obj_generation metadata\<rparr>"
  let ?cfg = "\<lparr>dl_auto_transfer = False, dl_chunksize = buffer_size, dl_num_retries = 20\<rparr>"
  from init p g m have d: "d = \<lparr>d_path = path, d_bucket = bucket, d_name = name,
        d_buffer_size = buffer_size, d_get_request = ?greq, d_size = obj_size metadata,
        d_download_stream = \<lparr>bio_buf = [], bio_pos = 0\<rparr>,
        d_downloader = ?cfg, d_download_request = ?greq\<rparr>"
    and h': "h' = h2 @ [ObjectsGetDownload ?greq ?cfg]"
    by (auto simp: GcsDownloader_init_def Let_def split: option.splits)
  from m obtain h0 where "(objects_Get R h0 ?req, h0 @ [ObjectsGet ?req]) = (Inr metadata, h2)"
    unfolding get_object_metadata_def with_exponential_backoff_def
    by (blast dest: retry_loop_Inr_last)
  then have fetch: "objects_Get R h0 ?req = Inr metadata" by simp
  have same: "d_download_request d = d_get_request d" using d by simp
  have first: "\<exists>h0 metadata.
            objects_Get R h0 \<lparr>get_bucket_name = d_bucket d, get_object = d_name d, generation = None\<rparr>
              = Inr metadata
          \<and> d_get_request d = \<lparr>get_bucket_name = d_bucket d, get_object = d_name d,
                                generation = obj_generation metadata\<rparr>
          \<and> d_size d = obj_size metadata"
    using fetch d by (intro exI [of _ h0] exI [of _ metadata]) simp
  have last: "\<exists>h2. h' = h2 @ [ObjectsGetDownload (d_get_request d) (d_downloader d)]"
    using h' d by simp
  from get_ranges_keeps [of R rs d h] same first last show ?thesis by simp
qed

theorem read_session_generation_pinned_witness:
  "GcsDownloader_init remote0 policy0 ''gs://b/obj'' 16 (GcsIO_init, []) =
     (Inr session0, snd (GcsDownloader_init remote0 policy0 ''gs://b/obj'' 16 (GcsIO_init, [])))
 \<and> objects_Get remote0 [] \<lparr>get_bucket_name = ''b'', get_object = ''obj'', generation = None\<rparr> =
     Inr \<lparr>obj_size = 8, obj_generation = Some 7\<rparr>
 \<and> generation (d_get_request session0) = Some 7
 \<and> d_get_request (fst (get_ranges remote0 [(0, 4), (2, 5)] (session0, []))) = d_get_request session0
 \<and> snd (get_ranges remote0 [(0, 4), (2, 5)] (session0, [])) =
     [DownloadGetRange \<lparr>get_bucket_name = ''b'', get_object = ''obj'', generation = Some 7\<rparr>
        \<lparr>dl_auto_transfer = False, dl_chunksize = 16, dl_num_retries = 20\<rparr> 0 3,
      DownloadGetRange \<lparr>get_bucket_name = ''b'', get_object = ''obj'', generation = Some 7\<rparr>
        \<lparr>dl_auto_transfer = False, dl_chunksize = 16, dl_num_retries = 20\<rparr> 2 4]"
proof -
  obtain io' h' where st: "snd (GcsDownloader_init remote0 policy0 ''gs://b/obj'' 16 (GcsIO_init, [])) = (io', h')"
    by (cases "snd (GcsDownloader_init remote0 policy0 ''gs://b/obj'' 16 (GcsIO_init, []))")
  have init: "GcsDownloader_init remote0 policy0 ''gs://b/obj'' 16 (GcsIO_init, []) = (Inr session0, io', h')"
    using session0_open st by (metis prod.collapse)
  have m: "objects_Get remote0 [] \<lparr>get_bucket_name = ''b'', get_object = ''obj'', generation = None\<rparr> =
     Inr \<lparr>obj_size = 8, obj_generation = Some 7\<rparr>"
    by (simp add: remote0_def)
  have g: "generation (d_get_request session0) = Some 7" by (simp add: session0_def)
  from read_session_generation_pinned [OF init, of "[(0, 4), (2, 5)]" "[]"]
  have "d_get_request (fst (get_ranges remote0 [(0, 4), (2, 5)] (session0, []))) = d_get_request session0"
    and "snd (get_ranges remote0 [(0, 4), (2, 5)] (session0, [])) =
           [] @ map (\<lambda>r. DownloadGetRange (d_get_request session0) (d_downloader session0) (fst r) (snd r - 1))
                  [(0, 4), (2, 5)]"
    by blast+
  with init st m g show ?thesis by (simp add: session0_def)
qed

subsection \<open>GcsDownloader: which fetch is retried\<close>

text \<open>
  Claim C9, as the code has it. The metadata fetch at open runs under the retry
  decorator: when the first answer is an error that the retry filter accepts, the policy
  allows a retry and the second answer is a success, the fetch returns that success after
  two requests. \<^verbatim>\<open>get_range\<close> has no retry decorator: it makes one \<^verbatim>\<open>GetRange\<close> call on
  the transfer object and an exception of that call leaves \<^verbatim>\<open>get_range\<close> as it is, for any
  policy. What retries a range fetch is the transfer object, which the constructor
  configures with \<^verbatim>\<open>num_retries=20\<close>.
\<close>

theorem range_fetch_outside_retry_wrapper:
  "(download_GetRange R h (d_download_request d) (d_downloader d) start (end' - 1) = Inl e \<longrightarrow>
      get_range R d start end' h =
        (Inl e, d\<lparr>d_download_stream := \<lparr>bio_buf = [], bio_pos = 0\<rparr>\<rparr>,
         h @ [DownloadGetRange (d_download_request d) (d_downloader d) start (end' - 1)]))
 \<and> (objects_Get R h get_req = Inl e \<and> retry_filter pol e \<and> 0 < num_retries pol
      \<and> objects_Get R (h @ [ObjectsGet get_req]) get_req = Inr metadata \<longrightarrow>
      get_object_metadata R pol get_req h = (Inr metadata, h @ [ObjectsGet get_req, ObjectsGet get_req]))
 \<and> (GcsDownloader_init R pol path buffer_size st = (Inr d0, st') \<longrightarrow>
      d_downloader d0 = \<lparr>dl_auto_transfer = False, dl_chunksize = buffer_size, dl_num_retries = 20\<rparr>)"
proof (intro conjI impI)
  assume "download_GetRange R h (d_download_request d) (d_downloader d) start (end' - 1) = Inl e"
  then show "get_range R d start end' h =
        (Inl e, d\<lparr>d_download_stream := \<lparr>bio_buf = [], bio_pos = 0\<rparr>\<rparr>,
         h @ [DownloadGetRange (d_download_request d) (d_downloader d) start (end' - 1)])"
    by (rule get_range_Inl)
next
  assume a: "objects_Get R h get_req = Inl e \<and> retry_filter pol e \<and> 0 < num_retries pol
      \<and> objects_Get R (h @ [ObjectsGet get_req]) get_req = Inr metadata"
  then obtain n where n: "num_retries pol = Suc n" by (cases "num_retries pol") auto
  let ?f = "\<lambda>h'. (objects_Get R h' get_req, h' @ [ObjectsGet get_req])"
  have second: "?f (h @ [ObjectsGet get_req]) = (Inr metadata, h @ [ObjectsGet get_req, ObjectsGet get_req])"
    using a by simp
  have "retry_loop (retry_filter pol) (Suc n) ?f h = retry_loop (retry_filter pol) n ?f (h @ [ObjectsGet get_req])"
    using a by simp
  also have "\<dots> = (Inr metadata, h @ [ObjectsGet get_req, ObjectsGet get_req])"
    using second by (rule retry_loop_Inr)
  finally show "get_object_metadata R pol get_req h =
      (Inr metadata, h @ [ObjectsGet get_req, ObjectsGet get_req])"
    by (simp add: get_object_metadata_def with_exponential_backoff_def n)
next
  assume "GcsDownloader_init R pol path buffer_size st = (Inr d0, st')"
  then show "d_downloader d0 = \<lparr>dl_auto_transfer = False, dl_chunksize = buffer_size, dl_num_retries = 20\<rparr>"
    by (auto simp: GcsDownloader_init_def Let_def split: sum.splits prod.splits if_splits option.splits)
qed

lemma session9_open:
  "GcsDownloader_init remote9 policy0 ''gs://b/obj'' 16 (GcsIO_init, []) =
     (Inr session0, GcsIO_init\<lparr>bucket_to_project_number := [''b'' \<mapsto> Some 42]\<rparr>, trace9)"
  by (simp add: GcsDownloader_init_def parse_gcs_path_def gcs_path_match_def
        get_project_number_def get_bucket_def remote9_def remote0_def GcsIO_init_def Let_def
        get_object_metadata_def with_exponential_backoff_def policy0_def session0_def trace9_def
        eval_nat_numeral)

text \<open>
  The claim as stated fails: the range request is answered with a 503, which the retry
  filter accepts and which would not come again, and \<^verbatim>\<open>get_range\<close> raises it after that
  one request, while the metadata fetch of the same session was tried twice.
\<close>

theorem range_fetch_outside_retry_wrapper_counterexample:
  "fst (GcsDownloader_init remote9 policy0 ''gs://b/obj'' 16 (GcsIO_init, [])) = Inr session0
 \<and> snd (snd (GcsDownloader_init remote9 policy0 ''gs://b/obj'' 16 (GcsIO_init, []))) = trace9
 \<and> retry_filter policy0 (HttpError 503)
 \<and> fst (get_range remote9 session0 2 5 trace9) = Inl (HttpError 503)
 \<and> snd (snd (get_range remote9 session0 2 5 trace9)) =
      trace9 @ [DownloadGetRange (d_download_request session0) (d_downloader session0) 2 4]
 \<and> download_GetRange remote9
      (trace9 @ [DownloadGetRange (d_download_request session0) (d_downloader session0) 2 4])
      (d_download_request session0) (d_downloader session0) 2 4 = Inr [30, 40, 50]"
proof -
  have f: "retry_filter policy0 (HttpError 503)" by (simp add: policy0_def)
  have g: "download_GetRange remote9 trace9 (d_download_request session0) (d_downloader session0) 2 (5 - 1)
            = Inl (HttpError 503)"
    by (simp add: remote9_def trace9_def)
  have r: "download_GetRange remote9
      (trace9 @ [DownloadGetRange (d_download_request session0) (d_downloader session0) 2 4])
      (d_download_request session0) (d_downloader session0) 2 4 = Inr [30, 40, 50]"
    by (simp add: remote9_def content0_def)
  from get_range_Inl [OF g] f r session9_open show ?thesis by simp
qed

theorem range_fetch_outside_retry_wrapper_witness:
  "download_GetRange remote9 trace9 (d_download_request session0) (d_downloader session0) 2 (5 - 1)
     = Inl (HttpError 503)
 \<and> fst (get_range remote9 session0 2 5 trace9) = Inl (HttpError 503)
 \<and> objects_Get remote9 [] \<lparr>get_bucket_name = ''b'', get_object = ''obj'', generation = None\<rparr>
     = Inl (HttpError 503)
 \<and> retry_filter policy0 (HttpError 503)
 \<and> 0 < num_retries policy0
 \<and> get_object_metadata remote9 policy0
      \<lparr>get_bucket_name = ''b'', get_object = ''obj'', generation = None\<rparr> [] =
      (Inr \<lparr>obj_size = 8, obj_generation = Some 7\<rparr>,
       [ObjectsGet \<lparr>get_bucket_name = ''b'', get_object = ''obj'', generation = None\<rparr>,
        ObjectsGet \<lparr>get_bucket_name = ''b'', get_object = ''obj'', generation = None\<rparr>])
 \<and> dl_num_retries (d_downloader session0) = 20"
proof -
  let ?req = "\<lparr>get_bucket_name = ''b'', get_object = ''obj'', generation = None\<rparr>"
  have g: "download_GetRange remote9 trace9 (d_download_request session0) (d_downloader session0) 2 (5 - 1)
            = Inl (HttpError 503)"
    by (simp add: remote9_def trace9_def)
  have m: "objects_Get remote9 [] ?req = Inl (HttpError 503) \<and> retry_filter policy0 (HttpError 503)
      \<and> 0 < num_retries policy0
      \<and> objects_Get remote9 ([] @ [ObjectsGet ?req]) ?req = Inr \<lparr>obj_size = 8, obj_generation = Some 7\<rparr>"
    by (simp add: remote9_def policy0_def)
  note t = range_fetch_outside_retry_wrapper [where R = remote9 and h = trace9 and d = session0
      and start = 2 and end' = 5 and e = "HttpError 503"]
  note u = range_fetch_outside_retry_wrapper [where R = remote9 and h = "[]" and get_req = ?req
      and e = "HttpError 503" and pol = policy0
      and metadata = "\<lparr>obj_size = 8, obj_generation = Some 7\<rparr>"]
  note v = range_fetch_outside_retry_wrapper [where R = remote9 and pol = policy0
      and path = "''gs://b/obj''" and buffer_size = 16 and st = "(GcsIO_init, [])" and ?d0.0 = session0
      and st' = "(GcsIO_init\<lparr>bucket_to_project_number := [''b'' \<mapsto> Some 42]\<rparr>, trace9)"]
  have r1: "fst (get_range remote9 session0 2 5 trace9) = Inl (HttpError 503)"
    using t g by simp
  have r2: "get_object_metadata remote9 policy0 ?req [] =
      (Inr \<lparr>obj_size = 8, obj_generation = Some 7\<rparr>, [ObjectsGet ?req, ObjectsGet ?req])"
    using u m by simp
  have r3: "dl_num_retries (d_downloader session0) = 20"
    using v session9_open by simp
  from g r1 m r2 r3 show ?thesis by simp
qed

subsection \<open>GcsUploader: the error of the upload task\<close>

lemma start_upload_records_insert_error:
  assumes "get_project_number R (u_bucket u) st = (Inr pn, io1, h1)"
      and "objects_Insert R h1 (u_insert_request u) (u_upload u) = Some e"
  shows "last_error (fst (start_upload R u st)) = Some e"
    and "u_child_conn_closed (fst (start_upload R u st))"
    and "u_thread (fst (start_upload R u st)) = Finished"
  using assms by (simp_all add: start_upload_def)

lemma put_raises_stored_error:
  assumes "last_error u = Some e" and "u_child_conn_closed u"
  shows "put pipe_send_bytes u data = (Inl e, u)"
  using assms by (simp add: put_def pipe_send_bytes_def)

lemma finish_raises_stored_error:
  assumes "last_error u = Some e" and "u_thread u \<noteq> Running"
  shows "fst (finish R u st) = Inl e"
  using assms by (simp add: finish_def Let_def)

lemma upload_error_surfaces:
  assumes "get_project_number R (u_bucket u) st = (Inr pn, io1, h1)"
      and "objects_Insert R h1 (u_insert_request u) (u_upload u) = Some e"
  shows "fst (put pipe_send_bytes (fst (start_upload R u st)) data) = Inl e"
    and "fst (finish R (fst (start_upload R u st)) st') = Inl e"
    and "u_thread u = Running \<Longrightarrow> last_error u = None \<Longrightarrow> fst (finish R u st) = Inl e"
proof -
  note r = start_upload_records_insert_error [OF assms]
  show "fst (put pipe_send_bytes (fst (start_upload R u st)) data) = Inl e"
    using put_raises_stored_error [OF r(1) r(2)] by simp
  show "fst (finish R (fst (start_upload R u st)) st') = Inl e"
    using r by (intro finish_raises_stored_error) simp_all
  show "u_thread u = Running \<Longrightarrow> last_error u = None \<Longrightarrow> fst (finish R u st) = Inl e"
    using assms by (simp add: finish_def Let_def start_upload_def)
qed

text \<open>
  Claim C2 does not hold of the code. When the lookup of the project number raises, the
  thread dies with that exception before the \<^verbatim>\<open>try\<close>: nothing is stored in
  \<^verbatim>\<open>last_error\<close> and the child end of the pipe stays open. The next \<^verbatim>\<open>put\<close> returns
  normally and so does \<^verbatim>\<open>finish\<close>: the error of the task reaches no caller. (An error of
  the upload call itself is stored and raised, see \<open>upload_error_surfaces\<close>.)
\<close>

theorem upload_task_error_before_try_is_dropped:
  "GcsUploader_init ''gs://b/obj'' ''text/plain'' = Inr uploader0
 \<and> u_thread (fst (start_upload remote_lookup_fails uploader0 (GcsIO_init, [])))
      = Died (OtherError ''connection reset'')
 \<and> last_error (fst (start_upload remote_lookup_fails uploader0 (GcsIO_init, []))) = None
 \<and> u_child_conn_closed (fst (start_upload remote_lookup_fails uploader0 (GcsIO_init, []))) = False
 \<and> fst (put pipe_send_bytes (fst (start_upload remote_lookup_fails uploader0 (GcsIO_init, []))) [1, 2, 3])
      = Inr ()
 \<and> fst (finish remote_lookup_fails
           (fst (start_upload remote_lookup_fails uploader0 (GcsIO_init, [])))
           (snd (start_upload remote_lookup_fails uploader0 (GcsIO_init, [])))) = Inr ()
 \<and> fst (finish remote_lookup_fails uploader0 (GcsIO_init, [])) = Inr ()
 \<and> fst (finish remote_insert_fails uploader0 (GcsIO_init, [])) = Inl (HttpError 500)"
proof -
  have s: "start_upload remote_lookup_fails uploader0 (GcsIO_init, []) =
      (uploader0\<lparr>u_thread := Died (OtherError ''connection reset'')\<rparr>, GcsIO_init, [BucketsGet ''b''])"
    by (simp add: start_upload_def get_project_number_def get_bucket_def remote_lookup_fails_def
          remote0_def GcsIO_init_def uploader0_def Let_def)
  have i: "GcsUploader_init ''gs://b/obj'' ''text/plain'' = Inr uploader0"
    by (simp add: GcsUploader_init_def parse_gcs_path_def gcs_path_match_def uploader0_def)
  have f: "fst (finish remote_lookup_fails uploader0 (GcsIO_init, [])) = Inr ()"
    by (simp add: finish_def start_upload_def get_project_number_def get_bucket_def
          remote_lookup_fails_def remote0_def GcsIO_init_def uploader0_def Let_def)
  have g: "fst (finish remote_insert_fails uploader0 (GcsIO_init, [])) = Inl (HttpError 500)"
    by (simp add: finish_def start_upload_def get_project_number_def get_bucket_def
          remote_insert_fails_def remote0_def GcsIO_init_def uploader0_def Let_def)
  show ?thesis
    unfolding s using i f g
    by (simp add: put_def pipe_send_bytes_def finish_def uploader0_def Let_def)
qed

end
